theory Spec2Isabelle
  imports Main "HOL-Library.Word"
begin

section \<open>The object pools of object\_pool.hpp\<close>

text \<open>
  The two class templates \<open>ObjectPool<T>\<close> and \<open>IndexedObjectPool<T>\<close> own an array
  \<open>pool_\<close> of pool units and thread a singly linked free list through the \<open>next_\<close>
  members of the units. The embedding keeps the representation of the source:
  \<^item> \<open>std::size_t\<close> is a 64-bit word, so \<open>--active_count_\<close>, \<open>capacity_ - 1\<close> and the
    reverse loop of \<open>IndexedObjectPool::deactivate\<close> wrap around as in the source;
  \<^item> a pointer to a pool unit is \<open>nullptr\<close> or \<open>UnitPtr k\<close>, the address \<open>&pool_[k]\<close> of
    the unit at offset \<open>k\<close> of the array the pool owns;
  \<^item> \<open>pool_\<close> itself is \<open>None\<close> (the null pointer) or \<open>Some us\<close>, the array it points to;
  \<^item> a data member \<open>x_\<close> of the source is the field \<open>m_x\<close> (a name cannot end in an
    underscore here), and a member function \<open>f\<close> of \<open>ObjectPool\<close> is \<open>ObjectPool_f\<close>;
  \<^item> every access \<open>pool_[k]\<close> and every dereference \<open>first_available_->\<close> is checked:
    what is undefined behaviour in C++ is the value \<open>Inl\<close> of the model, and so is the
    exception a \<open>new[]\<close> expression throws when the free store cannot provide the array;
  \<^item> a member function that changes the pool returns the pool it leaves;
  \<^item> the move assignment and the move constructor act on two objects that may be one and
    the same, so they work on the objects of the program, kept by address.
\<close>

subsection \<open>Data\<close>

type_synonym size_t = "64 word"

datatype ptr = nullptr | UnitPtr nat

text \<open>
  The ways a call does not complete: a dereference of the null pointer and an access outside
  the array, both undefined behaviour, and \<open>std::bad_alloc\<close> (or the
  \<open>std::bad_array_new_length\<close> derived from it) thrown by \<open>new[]\<close>.
\<close>

datatype failure = NullDereference | OutOfBounds | BadAlloc

text \<open>
  The free store, as far as \<open>new[]\<close> depends on it: \<open>mem n\<close> holds when an array of \<open>n\<close>
  pool units can be allocated. It is a parameter of the constructors; nothing is assumed
  about the arrays a free store provides.
\<close>

type_synonym free_store = "nat \<Rightarrow> bool"

text \<open>A free store with room for an array of up to \<open>limit\<close> units.\<close>

definition free_store_of :: "nat \<Rightarrow> free_store" where
  "free_store_of limit n = (n \<le> limit)"

record 'a PoolUnit =
  m_active :: bool
  m_next :: ptr
  m_object :: 'a

text \<open>
  \<open>IndexedPoolUnit<T>\<close> has the members of \<open>PoolUnit<T>\<close> and \<open>index_\<close>; the classes
  \<open>ObjectPool<T>\<close> and \<open>IndexedObjectPool<T>\<close> differ in \<open>highest_active_index_\<close>.
\<close>

record 'a IndexedPoolUnit = "'a PoolUnit" +
  m_index :: size_t

record 'u ObjectPool =
  m_first_available :: ptr
  m_pool :: "'u list option"
  m_active_count :: size_t
  m_capacity :: size_t

record 'u IndexedObjectPool = "'u ObjectPool" +
  m_highest_active_index :: size_t

text \<open>
  The built-in \<open><\<close> on unit pointers, as \<open>IndexedObjectPool::deactivate\<close> uses it. The
  units of one array are ordered by their offset; the null pointer is the address 0 of
  the flat address space every supported platform has, below the address of any unit.
\<close>

fun ptr_less :: "ptr \<Rightarrow> ptr \<Rightarrow> bool" where
  "ptr_less nullptr nullptr = False"
| "ptr_less nullptr (UnitPtr m) = True"
| "ptr_less (UnitPtr k) nullptr = False"
| "ptr_less (UnitPtr k) (UnitPtr m) = (k < m)"

subsection \<open>Access to the array\<close>

text \<open>\<open>pool_[k]\<close> read as a value.\<close>

definition read_unit :: "('u, 'm) ObjectPool_scheme \<Rightarrow> nat \<Rightarrow> failure + 'u" where
  "read_unit p k =
     (case m_pool p of
        None \<Rightarrow> Inl NullDereference
      | Some us \<Rightarrow> if k < length us then Inr (us ! k) else Inl OutOfBounds)"

text \<open>An assignment to members of \<open>pool_[k]\<close>.\<close>

definition write_unit ::
  "nat \<Rightarrow> ('u \<Rightarrow> 'u) \<Rightarrow> ('u, 'm) ObjectPool_scheme \<Rightarrow> failure + ('u, 'm) ObjectPool_scheme" where
  "write_unit k f p =
     (case m_pool p of
        None \<Rightarrow> Inl NullDereference
      | Some us \<Rightarrow>
          if k < length us then Inr (p\<lparr>m_pool := Some (us[k := f (us ! k)])\<rparr>)
          else Inl OutOfBounds)"

text \<open>A read and an assignment through a unit pointer, \<open>q->\<close>.\<close>

definition deref :: "('u, 'm) ObjectPool_scheme \<Rightarrow> ptr \<Rightarrow> failure + 'u" where
  "deref p q = (case q of nullptr \<Rightarrow> Inl NullDereference | UnitPtr k \<Rightarrow> read_unit p k)"

definition assign_through ::
  "ptr \<Rightarrow> ('u \<Rightarrow> 'u) \<Rightarrow> ('u, 'm) ObjectPool_scheme \<Rightarrow> failure + ('u, 'm) ObjectPool_scheme" where
  "assign_through q f p =
     (case q of nullptr \<Rightarrow> Inl NullDereference | UnitPtr k \<Rightarrow> write_unit k f p)"

lemma unat_succ_below: "(i::size_t) < c \<Longrightarrow> unat (i + 1) = unat i + 1"
  by unat_arith

lemma write_unit_capacity [simp]:
  "write_unit k f p = Inr p' \<Longrightarrow> m_capacity p' = m_capacity p"
  by (auto simp: write_unit_def split: option.splits if_splits)

subsection \<open>ObjectPool\<close>

text \<open>
  \<open>inflatePool\<close>: \<open>pool_ = new PoolUnit<T>[capacity_]\<close>. When the free store cannot provide
  an array of \<open>capacity_\<close> units the \<open>new[]\<close> expression throws and \<open>pool_\<close> is not assigned.
  Otherwise every unit is initialised by its default member initialisers; \<open>d\<close> is the
  value-initialised \<open>T\<close>. An array of no units can be allocated like any other.
\<close>

definition ObjectPool_inflatePool ::
  "free_store \<Rightarrow> 'a \<Rightarrow> 'a PoolUnit ObjectPool \<Rightarrow> failure + 'a PoolUnit ObjectPool" where
  "ObjectPool_inflatePool mem d p =
     (if mem (unat (m_capacity p)) then
        Inr (p\<lparr>m_pool := Some (replicate (unat (m_capacity p))
                                \<lparr>m_active = False, m_next = nullptr, m_object = d\<rparr>)\<rparr>)
      else Inl BadAlloc)"

text \<open>The loop of \<open>clear\<close>, from \<open>i\<close> on.\<close>

function ObjectPool_clear_loop ::
  "size_t \<Rightarrow> 'a PoolUnit ObjectPool \<Rightarrow> failure + 'a PoolUnit ObjectPool" where
  "ObjectPool_clear_loop i p =
     (if i < m_capacity p then
        (case write_unit (unat i) (\<lambda>u. u\<lparr>m_active := False, m_next := UnitPtr (unat (i + 1))\<rparr>) p of
           Inl e \<Rightarrow> Inl e
         | Inr p' \<Rightarrow> ObjectPool_clear_loop (i + 1) p')
      else Inr p)"
  by pat_completeness auto
termination
proof (relation "measure (\<lambda>(i, p). unat (m_capacity p) - unat i)", goal_cases)
  case 1
  show ?case by simp
next
  case (2 i p p')
  from 2(1) have "unat (i + 1) = unat i + 1"
    by (rule unat_succ_below)
  with 2 show ?case
    by (simp add: word_less_nat_alt)
qed

definition ObjectPool_clear :: "'a PoolUnit ObjectPool \<Rightarrow> failure + 'a PoolUnit ObjectPool" where
  "ObjectPool_clear p =
     (case ObjectPool_clear_loop 0 (p\<lparr>m_first_available := UnitPtr 0\<rparr>) of
        Inl e \<Rightarrow> Inl e
      | Inr p1 \<Rightarrow>
          (case write_unit (unat (m_capacity p1 - 1)) (\<lambda>u. u\<lparr>m_next := nullptr\<rparr>) p1 of
             Inl e \<Rightarrow> Inl e
           | Inr p2 \<Rightarrow> Inr (p2\<lparr>m_active_count := 0\<rparr>)))"

text \<open>
  The constructor \<open>ObjectPool(std::size_t capacity)\<close>: the members take their default
  initialisers, \<open>capacity_\<close> the argument; then \<open>inflatePool(); clear();\<close>. An exception
  of \<open>inflatePool\<close> leaves the constructor, and no pool is constructed.
\<close>

definition ObjectPool_ctor ::
  "free_store \<Rightarrow> 'a \<Rightarrow> size_t \<Rightarrow> failure + 'a PoolUnit ObjectPool" where
  "ObjectPool_ctor mem d capacity =
     (case ObjectPool_inflatePool mem d
             \<lparr>m_first_available = nullptr, m_pool = None, m_active_count = 0,
              m_capacity = capacity\<rparr> of
        Inl e \<Rightarrow> Inl e
      | Inr p \<Rightarrow> ObjectPool_clear p)"

text \<open>
  \<open>activate\<close> returns the pool and the pointer handed out: \<open>UnitPtr k\<close> stands for
  \<open>&pool_[k].object_\<close>.
\<close>

definition ObjectPool_activate ::
  "'a PoolUnit ObjectPool \<Rightarrow> failure + ('a PoolUnit ObjectPool \<times> ptr)" where
  "ObjectPool_activate p =
     (if m_first_available p \<noteq> nullptr then
        (case assign_through (m_first_available p) (\<lambda>u. u\<lparr>m_active := True\<rparr>) p of
           Inl e \<Rightarrow> Inl e
         | Inr p1 \<Rightarrow>
             (case deref p1 (m_first_available p1) of
                Inl e \<Rightarrow> Inl e
              | Inr u \<Rightarrow>
                  Inr (p1\<lparr>m_first_available := m_next u, m_active_count := m_active_count p1 + 1\<rparr>,
                       m_first_available p1)))
      else Inr (p, nullptr))"

definition ObjectPool_active :: "'a PoolUnit ObjectPool \<Rightarrow> size_t \<Rightarrow> failure + bool" where
  "ObjectPool_active p index =
     (case read_unit p (unat index) of Inl e \<Rightarrow> Inl e | Inr u \<Rightarrow> Inr (m_active u))"

definition ObjectPool_activeCount :: "'a PoolUnit ObjectPool \<Rightarrow> size_t" where
  "ObjectPool_activeCount p = m_active_count p"

text \<open>
  \<open>at\<close> forms the address \<open>&pool_[index]\<close> for an index below \<open>capacity_\<close>. This is checked
  like an access: with a null \<open>pool_\<close> (a moved-from pool keeps its \<open>capacity_\<close>) the address
  would be computed from the null pointer, and beyond the array there is no unit to point to.
\<close>

definition ObjectPool_at :: "'a PoolUnit ObjectPool \<Rightarrow> size_t \<Rightarrow> failure + ptr" where
  "ObjectPool_at p index =
     (if index < m_capacity p then
        (case read_unit p (unat index) of Inl e \<Rightarrow> Inl e | Inr u \<Rightarrow> Inr (UnitPtr (unat index)))
      else Inr nullptr)"

definition ObjectPool_capacity :: "'a PoolUnit ObjectPool \<Rightarrow> size_t" where
  "ObjectPool_capacity p = m_capacity p"

definition ObjectPool_deactivate ::
  "size_t \<Rightarrow> 'a PoolUnit ObjectPool \<Rightarrow> failure + 'a PoolUnit ObjectPool" where
  "ObjectPool_deactivate index p =
     (if index < m_capacity p then
        (case write_unit (unat index) (\<lambda>u. u\<lparr>m_active := False\<rparr>) p of
           Inl e \<Rightarrow> Inl e
         | Inr p1 \<Rightarrow>
             (case write_unit (unat index) (\<lambda>u. u\<lparr>m_next := m_first_available p1\<rparr>) p1 of
                Inl e \<Rightarrow> Inl e
              | Inr p2 \<Rightarrow>
                  Inr (p2\<lparr>m_first_available := UnitPtr (unat index),
                          m_active_count := m_active_count p2 - 1\<rparr>)))
      else Inr p)"

text \<open>
  The pool objects of the program, by address. \<open>operator=(ObjectPool&& other)\<close> is given
  the addresses \<open>this\<close> and \<open>&other\<close>, compares them, and assigns member by member to the
  two objects. It returns the array \<open>delete[] pool_\<close> releases (none for a null \<open>pool_\<close>, and
  none when the guard fails) and the objects as it leaves them.
\<close>

type_synonym 'p objects = "nat \<Rightarrow> 'p"

text \<open>A program with two pool objects: \<open>a\<close> at the address 0 and \<open>b\<close> at the address 1.\<close>

definition two_objects :: "'p \<Rightarrow> 'p \<Rightarrow> 'p objects" where
  "two_objects a b k = (if k = 0 then a else b)"

definition ObjectPool_move_assign ::
  "nat \<Rightarrow> nat \<Rightarrow> 'a PoolUnit ObjectPool objects \<Rightarrow>
   'a PoolUnit list option \<times> 'a PoolUnit ObjectPool objects" where
  "ObjectPool_move_assign this other s =
     (if this \<noteq> other then
        (let s1 = s(this := (s this)\<lparr>m_active_count := m_active_count (s other)\<rparr>);
             s2 = s1(this := (s1 this)\<lparr>m_capacity := m_capacity (s1 other)\<rparr>);
             released = m_pool (s2 this);
             first = m_first_available (s2 other);
             s3 = s2(other := (s2 other)\<lparr>m_first_available := nullptr\<rparr>);
             s4 = s3(this := (s3 this)\<lparr>m_first_available := first\<rparr>);
             array = m_pool (s4 other);
             s5 = s4(other := (s4 other)\<lparr>m_pool := None\<rparr>);
             s6 = s5(this := (s5 this)\<lparr>m_pool := array\<rparr>)
         in (released, s6))
      else (None, s))"

text \<open>The destructor, \<open>delete[] pool_\<close>: the array it releases, none for a null \<open>pool_\<close>.\<close>

definition ObjectPool_dtor :: "'a PoolUnit ObjectPool \<Rightarrow> 'a PoolUnit list option" where
  "ObjectPool_dtor p = m_pool p"

text \<open>
  The move constructor \<open>ObjectPool(ObjectPool&& other) { *this = std::move(other); }\<close>
  constructs the object at the address \<open>this\<close>: its members take their default initialisers
  and \<open>capacity_\<close>, which has none, holds some value \<open>c\<close> until the assignment.
\<close>

definition ObjectPool_move_ctor ::
  "size_t \<Rightarrow> nat \<Rightarrow> nat \<Rightarrow> 'a PoolUnit ObjectPool objects \<Rightarrow>
   'a PoolUnit list option \<times> 'a PoolUnit ObjectPool objects" where
  "ObjectPool_move_ctor c this other s =
     ObjectPool_move_assign this other
       (s(this := \<lparr>m_first_available = nullptr, m_pool = None, m_active_count = 0,
                    m_capacity = c\<rparr>))"

subsection \<open>IndexedObjectPool\<close>

type_synonym 'a IPool = "'a IndexedPoolUnit IndexedObjectPool"

definition IndexedObjectPool_inflatePool :: "free_store \<Rightarrow> 'a \<Rightarrow> 'a IPool \<Rightarrow> failure + 'a IPool" where
  "IndexedObjectPool_inflatePool mem d p =
     (if mem (unat (m_capacity p)) then
        Inr (p\<lparr>m_pool := Some (replicate (unat (m_capacity p))
                                \<lparr>m_active = False, m_next = nullptr, m_object = d, m_index = 0\<rparr>)\<rparr>)
      else Inl BadAlloc)"

function IndexedObjectPool_clear_loop :: "size_t \<Rightarrow> 'a IPool \<Rightarrow> failure + 'a IPool" where
  "IndexedObjectPool_clear_loop i p =
     (if i < m_capacity p then
        (case write_unit (unat i)
                (\<lambda>u. u\<lparr>m_active := False, m_index := i, m_next := UnitPtr (unat (i + 1))\<rparr>) p of
           Inl e \<Rightarrow> Inl e
         | Inr p' \<Rightarrow> IndexedObjectPool_clear_loop (i + 1) p')
      else Inr p)"
  by pat_completeness auto
termination
proof (relation "measure (\<lambda>(i, p). unat (m_capacity p) - unat i)", goal_cases)
  case 1
  show ?case by simp
next
  case (2 i p p')
  from 2(1) have "unat (i + 1) = unat i + 1"
    by (rule unat_succ_below)
  with 2 show ?case
    by (simp add: word_less_nat_alt)
qed

definition IndexedObjectPool_clear :: "'a IPool \<Rightarrow> failure + 'a IPool" where
  "IndexedObjectPool_clear p =
     (case IndexedObjectPool_clear_loop 0 (p\<lparr>m_first_available := UnitPtr 0\<rparr>) of
        Inl e \<Rightarrow> Inl e
      | Inr p1 \<Rightarrow>
          (case write_unit (unat (m_capacity p1 - 1)) (\<lambda>u. u\<lparr>m_next := nullptr\<rparr>) p1 of
             Inl e \<Rightarrow> Inl e
           | Inr p2 \<Rightarrow> Inr (p2\<lparr>m_active_count := 0, m_highest_active_index := 0\<rparr>)))"

definition IndexedObjectPool_ctor :: "free_store \<Rightarrow> 'a \<Rightarrow> size_t \<Rightarrow> failure + 'a IPool" where
  "IndexedObjectPool_ctor mem d capacity =
     (case IndexedObjectPool_inflatePool mem d
             \<lparr>m_first_available = nullptr, m_pool = None, m_active_count = 0,
              m_capacity = capacity, m_highest_active_index = 0\<rparr> of
        Inl e \<Rightarrow> Inl e
      | Inr p \<Rightarrow> IndexedObjectPool_clear p)"

definition IndexedObjectPool_activate :: "'a IPool \<Rightarrow> failure + ('a IPool \<times> ptr)" where
  "IndexedObjectPool_activate p =
     (if m_first_available p \<noteq> nullptr then
        (case assign_through (m_first_available p) (\<lambda>u. u\<lparr>m_active := True\<rparr>) p of
           Inl e \<Rightarrow> Inl e
         | Inr p1 \<Rightarrow>
             (case deref p1 (m_first_available p1) of
                Inl e \<Rightarrow> Inl e
              | Inr u \<Rightarrow>
                  (let p2 = (if m_index u > m_highest_active_index p1
                             then p1\<lparr>m_highest_active_index := m_index u\<rparr> else p1)
                   in Inr (p2\<lparr>m_first_available := m_next u,
                                m_active_count := m_active_count p2 + 1\<rparr>,
                           m_first_available p2))))
      else Inr (p, nullptr))"

definition IndexedObjectPool_active :: "'a IPool \<Rightarrow> size_t \<Rightarrow> failure + bool" where
  "IndexedObjectPool_active p index =
     (case read_unit p (unat index) of Inl e \<Rightarrow> Inl e | Inr u \<Rightarrow> Inr (m_active u))"

definition IndexedObjectPool_activeCount :: "'a IPool \<Rightarrow> size_t" where
  "IndexedObjectPool_activeCount p = m_active_count p"

definition IndexedObjectPool_at :: "'a IPool \<Rightarrow> size_t \<Rightarrow> failure + ptr" where
  "IndexedObjectPool_at p index =
     (if index < m_capacity p then
        (case read_unit p (unat index) of Inl e \<Rightarrow> Inl e | Inr u \<Rightarrow> Inr (UnitPtr (unat index)))
      else Inr nullptr)"

definition IndexedObjectPool_capacity :: "'a IPool \<Rightarrow> size_t" where
  "IndexedObjectPool_capacity p = m_capacity p"

definition highestActiveIndex :: "'a IPool \<Rightarrow> size_t" where
  "highestActiveIndex p = m_highest_active_index p"

text \<open>
  The reverse loop of \<open>deactivate\<close>,
  \<open>for (std::size_t i = highest_active_index_ - 1; i != (std::size_t)-1; --i)\<close>, from \<open>i\<close>
  on, with the assignment \<open>highest_active_index_ = 0u\<close> that follows it.
\<close>

function find_previous_highest :: "size_t \<Rightarrow> 'a IPool \<Rightarrow> failure + 'a IPool" where
  "find_previous_highest i p =
     (if i \<noteq> - 1 then
        (case read_unit p (unat i) of
           Inl e \<Rightarrow> Inl e
         | Inr u \<Rightarrow>
             if m_active u then Inr (p\<lparr>m_highest_active_index := i\<rparr>)
             else find_previous_highest (i - 1) p)
      else Inr (p\<lparr>m_highest_active_index := 0\<rparr>))"
  by pat_completeness auto
termination
proof (relation "measure (\<lambda>(i, p). unat (i + 1))", goal_cases)
  case 1
  show ?case by simp
next
  case (2 i p u)
  from 2(1) have "i < - 1"
    by (simp add: word_order.not_eq_extremum)
  then have "unat (i + 1) = unat i + 1"
    by (rule unat_succ_below)
  then show ?case by simp
qed

definition IndexedObjectPool_deactivate :: "size_t \<Rightarrow> 'a IPool \<Rightarrow> failure + 'a IPool" where
  "IndexedObjectPool_deactivate index p =
     (if index < m_capacity p then
        (case write_unit (unat index) (\<lambda>u. u\<lparr>m_active := False\<rparr>) p of
           Inl e \<Rightarrow> Inl e
         | Inr p1 \<Rightarrow>
        (case read_unit p1 (unat index) of
           Inl e \<Rightarrow> Inl e
         | Inr freed \<Rightarrow>
        (case (if ptr_less (m_first_available p1) (m_next freed) then
                 (case deref p1 (m_first_available p1) of
                    Inl e \<Rightarrow> Inl e
                  | Inr head \<Rightarrow>
                      (let aux = m_next head in
                       case assign_through (m_first_available p1)
                              (\<lambda>u. u\<lparr>m_next := UnitPtr (unat index)\<rparr>) p1 of
                         Inl e \<Rightarrow> Inl e
                       | Inr p2 \<Rightarrow> write_unit (unat index) (\<lambda>u. u\<lparr>m_next := aux\<rparr>) p2))
               else
                 (case write_unit (unat index) (\<lambda>u. u\<lparr>m_next := m_first_available p1\<rparr>) p1 of
                    Inl e \<Rightarrow> Inl e
                  | Inr p2 \<Rightarrow> Inr (p2\<lparr>m_first_available := UnitPtr (unat index)\<rparr>))) of
           Inl e \<Rightarrow> Inl e
         | Inr p3 \<Rightarrow>
             (let p4 = p3\<lparr>m_active_count := m_active_count p3 - 1\<rparr> in
              if m_highest_active_index p4 = index then
                if index = 0 then Inr p4
                else find_previous_highest (m_highest_active_index p4 - 1) p4
              else Inr p4))))
      else Inr p)"

definition IndexedObjectPool_move_assign ::
  "nat \<Rightarrow> nat \<Rightarrow> 'a IPool objects \<Rightarrow> 'a IndexedPoolUnit list option \<times> 'a IPool objects" where
  "IndexedObjectPool_move_assign this other s =
     (if this \<noteq> other then
        (let s1 = s(this := (s this)\<lparr>m_active_count := m_active_count (s other)\<rparr>);
             s2 = s1(this := (s1 this)\<lparr>m_capacity := m_capacity (s1 other)\<rparr>);
             s3 = s2(this := (s2 this)\<lparr>m_highest_active_index :=
                                           m_highest_active_index (s2 other)\<rparr>);
             released = m_pool (s3 this);
             first = m_first_available (s3 other);
             s4 = s3(other := (s3 other)\<lparr>m_first_available := nullptr\<rparr>);
             s5 = s4(this := (s4 this)\<lparr>m_first_available := first\<rparr>);
             array = m_pool (s5 other);
             s6 = s5(other := (s5 other)\<lparr>m_pool := None\<rparr>);
             s7 = s6(this := (s6 this)\<lparr>m_pool := array\<rparr>)
         in (released, s7))
      else (None, s))"

definition IndexedObjectPool_dtor :: "'a IPool \<Rightarrow> 'a IndexedPoolUnit list option" where
  "IndexedObjectPool_dtor p = m_pool p"

definition IndexedObjectPool_move_ctor ::
  "size_t \<Rightarrow> nat \<Rightarrow> nat \<Rightarrow> 'a IPool objects \<Rightarrow>
   'a IndexedPoolUnit list option \<times> 'a IPool objects" where
  "IndexedObjectPool_move_ctor c this other s =
     IndexedObjectPool_move_assign this other
       (s(this := \<lparr>m_first_available = nullptr, m_pool = None, m_active_count = 0,
                    m_capacity = c, m_highest_active_index = 0\<rparr>))"

subsection \<open>Sequences of operations\<close>

text \<open>
  A client of a pool calls \<open>activate\<close>, \<open>deactivate\<close> and \<open>clear\<close> in some order. A run
  stops at the first call that has undefined behaviour.
\<close>

datatype pool_op = Activate | Deactivate size_t | Clear

definition ObjectPool_step ::
  "pool_op \<Rightarrow> 'a PoolUnit ObjectPool \<Rightarrow> failure + 'a PoolUnit ObjectPool" where
  "ObjectPool_step c p =
     (case c of
        Activate \<Rightarrow> (case ObjectPool_activate p of Inl e \<Rightarrow> Inl e | Inr r \<Rightarrow> Inr (fst r))
      | Deactivate i \<Rightarrow> ObjectPool_deactivate i p
      | Clear \<Rightarrow> ObjectPool_clear p)"

fun ObjectPool_run ::
  "pool_op list \<Rightarrow> 'a PoolUnit ObjectPool \<Rightarrow> failure + 'a PoolUnit ObjectPool" where
  "ObjectPool_run [] p = Inr p"
| "ObjectPool_run (c # cs) p =
     (case ObjectPool_step c p of Inl e \<Rightarrow> Inl e | Inr p' \<Rightarrow> ObjectPool_run cs p')"

text \<open>Every \<open>deactivate\<close> of the run is given the index of a unit that is active then.\<close>

fun ObjectPool_legal :: "pool_op list \<Rightarrow> 'a PoolUnit ObjectPool \<Rightarrow> bool" where
  "ObjectPool_legal [] p = True"
| "ObjectPool_legal (c # cs) p =
     ((case c of Deactivate i \<Rightarrow> ObjectPool_active p i = Inr True | _ \<Rightarrow> True) \<and>
      (case ObjectPool_step c p of Inl e \<Rightarrow> True | Inr p' \<Rightarrow> ObjectPool_legal cs p'))"

text \<open>\<open>n\<close> consecutive calls of \<open>activate\<close>, with the pointers they return, in order.\<close>

fun ObjectPool_activate_times ::
  "nat \<Rightarrow> 'a PoolUnit ObjectPool \<Rightarrow> failure + ('a PoolUnit ObjectPool \<times> ptr list)" where
  "ObjectPool_activate_times 0 p = Inr (p, [])"
| "ObjectPool_activate_times (Suc n) p =
     (case ObjectPool_activate p of
        Inl e \<Rightarrow> Inl e
      | Inr r \<Rightarrow>
          (case ObjectPool_activate_times n (fst r) of
             Inl e \<Rightarrow> Inl e
           | Inr r' \<Rightarrow> Inr (fst r', snd r # snd r')))"

definition IndexedObjectPool_step :: "pool_op \<Rightarrow> 'a IPool \<Rightarrow> failure + 'a IPool" where
  "IndexedObjectPool_step c p =
     (case c of
        Activate \<Rightarrow> (case IndexedObjectPool_activate p of Inl e \<Rightarrow> Inl e | Inr r \<Rightarrow> Inr (fst r))
      | Deactivate i \<Rightarrow> IndexedObjectPool_deactivate i p
      | Clear \<Rightarrow> IndexedObjectPool_clear p)"

fun IndexedObjectPool_run :: "pool_op list \<Rightarrow> 'a IPool \<Rightarrow> failure + 'a IPool" where
  "IndexedObjectPool_run [] p = Inr p"
| "IndexedObjectPool_run (c # cs) p =
     (case IndexedObjectPool_step c p of Inl e \<Rightarrow> Inl e | Inr p' \<Rightarrow> IndexedObjectPool_run cs p')"

fun IndexedObjectPool_legal :: "pool_op list \<Rightarrow> 'a IPool \<Rightarrow> bool" where
  "IndexedObjectPool_legal [] p = True"
| "IndexedObjectPool_legal (c # cs) p =
     ((case c of Deactivate i \<Rightarrow> IndexedObjectPool_active p i = Inr True | _ \<Rightarrow> True) \<and>
      (case IndexedObjectPool_step c p of Inl e \<Rightarrow> True | Inr p' \<Rightarrow> IndexedObjectPool_legal cs p'))"

subsection \<open>The free list and the active units\<close>

text \<open>
  \<open>is_free_list us q ks\<close>: following \<open>next_\<close> from the pointer \<open>q\<close> through the array \<open>us\<close>
  visits the units at the offsets \<open>ks\<close>, in this order, and then reaches \<open>nullptr\<close>.
\<close>

fun is_free_list :: "('a, 'm) PoolUnit_scheme list \<Rightarrow> ptr \<Rightarrow> nat list \<Rightarrow> bool" where
  "is_free_list us q [] = (q = nullptr)"
| "is_free_list us q (k # ks) =
     (q = UnitPtr k \<and> k < length us \<and> is_free_list us (m_next (us ! k)) ks)"

text \<open>The offsets of the active units, ascending.\<close>

definition active_indices :: "('a, 'm) PoolUnit_scheme list \<Rightarrow> nat list" where
  "active_indices us = filter (\<lambda>j. m_active (us ! j)) [0..<length us]"

text \<open>
  The array \<open>clear\<close> leaves: every unit inactive and linked to the unit after it, the last
  one to \<open>nullptr\<close>; the objects stay as they are.
\<close>

definition cleared :: "('a, 'm) PoolUnit_scheme list \<Rightarrow> ('a, 'm) PoolUnit_scheme list" where
  "cleared us =
     map (\<lambda>j. (us ! j)\<lparr>m_active := False,
                        m_next := (if Suc j < length us then UnitPtr (Suc j) else nullptr)\<rparr>)
         [0..<length us]"

text \<open>
  The invariant of the free list, in both pools: the array has \<open>capacity_\<close> units, and the
  free list is a list of distinct inactive units that, with the active count, adds up to the
  capacity.
\<close>

definition free_list_inv :: "(('a, 'm) PoolUnit_scheme, 'n) ObjectPool_scheme \<Rightarrow> bool" where
  "free_list_inv p =
     (\<exists>us fl. m_pool p = Some us \<and> length us = unat (m_capacity p) \<and> 0 < m_capacity p \<and>
        is_free_list us (m_first_available p) fl \<and> distinct fl \<and>
        (\<forall>k\<in>set fl. \<not> m_active (us ! k)) \<and>
        unat (m_active_count p) + length fl = length us)"

text \<open>A unit pointer is null or points into an array of \<open>n\<close> units.\<close>

definition valid_ptr :: "nat \<Rightarrow> ptr \<Rightarrow> bool" where
  "valid_ptr n q = (case q of nullptr \<Rightarrow> True | UnitPtr k \<Rightarrow> k < n)"

text \<open>
  A well-formed pool: the array has \<open>capacity_\<close> units, at least one, and every pointer
  kept in the pool points into it or is null.
\<close>

definition pool_wf :: "(('a, 'm) PoolUnit_scheme, 'n) ObjectPool_scheme \<Rightarrow> bool" where
  "pool_wf p =
     (\<exists>us. m_pool p = Some us \<and> length us = unat (m_capacity p) \<and> 0 < m_capacity p \<and>
        valid_ptr (length us) (m_first_available p) \<and>
        (\<forall>u\<in>set us. valid_ptr (length us) (m_next u)))"

text \<open>The array \<open>IndexedObjectPool::clear\<close> leaves; it also sets \<open>index_\<close>.\<close>

definition indexed_cleared :: "'a IndexedPoolUnit list \<Rightarrow> 'a IndexedPoolUnit list" where
  "indexed_cleared us =
     map (\<lambda>j. (us ! j)\<lparr>m_active := False, m_index := of_nat j,
                        m_next := (if Suc j < length us then UnitPtr (Suc j) else nullptr)\<rparr>)
         [0..<length us]"

text \<open>
  \<open>h\<close> is 0 when no unit of \<open>us\<close> is active, and the largest offset of an active unit
  otherwise.
\<close>

definition highest_inv :: "('a, 'm) PoolUnit_scheme list \<Rightarrow> size_t \<Rightarrow> bool" where
  "highest_inv us h =
     (if active_indices us = [] then h = 0 else unat h = Max (set (active_indices us)))"

text \<open>
  The invariant of \<open>IndexedObjectPool\<close>: the array has \<open>capacity_\<close> units, each unit
  carries its own offset in \<open>index_\<close>, and \<open>highest_active_index_\<close> is as above.
\<close>

definition indexed_inv :: "'a IPool \<Rightarrow> bool" where
  "indexed_inv p =
     (\<exists>us. m_pool p = Some us \<and> length us = unat (m_capacity p) \<and> 0 < m_capacity p \<and>
        (\<forall>j<length us. m_index (us ! j) = of_nat j) \<and>
        highest_inv us (m_highest_active_index p))"

text \<open>The units with their \<open>next_\<close> members blanked: what the relinking of a free list keeps.\<close>

definition next_erased :: "('a, 'm) PoolUnit_scheme list \<Rightarrow> ('a, 'm) PoolUnit_scheme list" where
  "next_erased us = map (\<lambda>u. u\<lparr>m_next := nullptr\<rparr>) us"

text \<open>A pool in use owns an array of \<open>capacity_\<close> units, at least one.\<close>

definition storage_ok :: "('u, 'n) ObjectPool_scheme \<Rightarrow> bool" where
  "storage_ok p = (\<exists>us. m_pool p = Some us \<and> length us = unat (m_capacity p) \<and> 0 < m_capacity p)"

section \<open>Properties\<close>

subsection \<open>Reading and writing units\<close>

declare ObjectPool_clear_loop.simps [simp del]
declare IndexedObjectPool_clear_loop.simps [simp del]
declare find_previous_highest.simps [simp del]

lemma write_unit_Some:
  "m_pool p = Some us \<Longrightarrow> k < length us \<Longrightarrow>
   write_unit k f p = Inr (p\<lparr>m_pool := Some (us[k := f (us ! k)])\<rparr>)"
  by (simp add: write_unit_def)

lemma write_unit_InrD:
  "write_unit k f p = Inr p' \<Longrightarrow>
   \<exists>us. m_pool p = Some us \<and> k < length us \<and> p' = p\<lparr>m_pool := Some (us[k := f (us ! k)])\<rparr>"
  by (auto simp: write_unit_def split: option.splits if_splits)

lemma read_unit_Some:
  "m_pool p = Some us \<Longrightarrow> k < length us \<Longrightarrow> read_unit p k = Inr (us ! k)"
  by (simp add: read_unit_def)

lemma read_unit_InrD:
  "read_unit p k = Inr u \<Longrightarrow> \<exists>us. m_pool p = Some us \<and> k < length us \<and> u = us ! k"
  by (auto simp: read_unit_def split: option.splits if_splits)

lemma take_Suc_update: "k < length us \<Longrightarrow> take (Suc k) (us[k := x]) = take k us @ [x]"
  by (simp add: take_Suc_conv_app_nth)

lemma unat_pred_capacity: "(0::size_t) < c \<Longrightarrow> unat (c - 1) = unat c - 1"
  by (simp add: unat_minus_one word_neq_0_conv)

subsection \<open>clear and the constructor of ObjectPool\<close>

lemma ObjectPool_clear_loop_spec:
  "m_pool p = Some us \<Longrightarrow> length us = unat (m_capacity p) \<Longrightarrow> i \<le> m_capacity p \<Longrightarrow>
   n = unat (m_capacity p) - unat i \<Longrightarrow>
   ObjectPool_clear_loop i p =
     Inr (p\<lparr>m_pool := Some (take (unat i) us @
            map (\<lambda>j. (us ! j)\<lparr>m_active := False, m_next := UnitPtr (j + 1)\<rparr>) [unat i..<length us])\<rparr>)"
proof (induction n arbitrary: i p us)
  case 0
  then have "\<not> i < m_capacity p" "unat i = length us"
    by (auto simp: word_less_nat_alt word_le_nat_alt)
  with 0 show ?case
    by (simp add: ObjectPool_clear_loop.simps)
next
  case (Suc n)
  then have lt: "i < m_capacity p"
    by (simp add: word_less_nat_alt)
  then have k: "unat i < length us" and s: "unat (i + 1) = unat i + 1"
    using Suc.prems(2) by (simp_all add: word_less_nat_alt unat_succ_below)
  let ?x = "(us ! unat i)\<lparr>m_active := False, m_next := UnitPtr (unat i + 1)\<rparr>"
  let ?p = "p\<lparr>m_pool := Some (us[unat i := ?x])\<rparr>"
  have le: "i + 1 \<le> m_capacity ?p"
    using lt by (simp add: inc_le)
  have "ObjectPool_clear_loop (i + 1) ?p =
     Inr (?p\<lparr>m_pool := Some (take (unat (i + 1)) (us[unat i := ?x]) @
            map (\<lambda>j. (us[unat i := ?x] ! j)\<lparr>m_active := False, m_next := UnitPtr (j + 1)\<rparr>)
              [unat (i + 1)..<length (us[unat i := ?x])])\<rparr>)"
    by (rule Suc.IH [OF _ _ le]) (use Suc.prems s in simp_all)
  moreover have "map (\<lambda>j. (us[unat i := ?x] ! j)\<lparr>m_active := False, m_next := UnitPtr (j + 1)\<rparr>)
              [unat i + 1..<length us] =
       map (\<lambda>j. (us ! j)\<lparr>m_active := False, m_next := UnitPtr (j + 1)\<rparr>) [unat i + 1..<length us]"
    by simp
  ultimately show ?case
    using k lt Suc.prems(1)
    by (simp add: ObjectPool_clear_loop.simps [of i p] write_unit_Some s take_Suc_update
        upt_conv_Cons [of "unat i"])
qed

lemma cleared_from_loop:
  assumes "0 < length us"
  shows "(map (\<lambda>j. (us ! j)\<lparr>m_active := False, m_next := UnitPtr (j + 1)\<rparr>) [0..<length us])
           [length us - 1 := (map (\<lambda>j. (us ! j)\<lparr>m_active := False, m_next := UnitPtr (j + 1)\<rparr>)
              [0..<length us] ! (length us - 1))\<lparr>m_next := nullptr\<rparr>] = cleared us"
  using assms by (auto simp: cleared_def nth_list_update intro!: nth_equalityI)

lemma length_cleared [simp]: "length (cleared us) = length us"
  by (simp add: cleared_def)

lemma nth_cleared:
  "j < length us \<Longrightarrow>
   cleared us ! j = (us ! j)\<lparr>m_active := False,
                            m_next := (if Suc j < length us then UnitPtr (Suc j) else nullptr)\<rparr>"
  by (simp add: cleared_def)

lemma ObjectPool_clear_ok:
  assumes "m_pool p = Some us" "length us = unat (m_capacity p)" "0 < m_capacity p"
  shows "ObjectPool_clear p =
           Inr (p\<lparr>m_first_available := UnitPtr 0, m_pool := Some (cleared us), m_active_count := 0\<rparr>)"
proof -
  have n: "0 < length us" "unat (m_capacity p - 1) = length us - 1"
    using assms by (simp_all add: unat_pred_capacity word_less_nat_alt)
  have "ObjectPool_clear_loop 0 (p\<lparr>m_first_available := UnitPtr 0\<rparr>) =
        Inr (p\<lparr>m_first_available := UnitPtr 0,
               m_pool := Some (map (\<lambda>j. (us ! j)\<lparr>m_active := False, m_next := UnitPtr (j + 1)\<rparr>)
                                 [0..<length us])\<rparr>)"
    using ObjectPool_clear_loop_spec [of "p\<lparr>m_first_available := UnitPtr 0\<rparr>" us 0, OF _ _ _ refl]
      assms by simp
  then show ?thesis
    using n cleared_from_loop [OF n(1)]
    by (simp add: ObjectPool_clear_def write_unit_def)
qed

lemma ObjectPool_ctor_ok:
  assumes "0 < capacity" "mem (unat capacity)"
  shows "ObjectPool_ctor mem d capacity =
           Inr \<lparr>m_first_available = UnitPtr 0,
                m_pool = Some (cleared (replicate (unat capacity)
                                  \<lparr>m_active = False, m_next = nullptr, m_object = d\<rparr>)),
                m_active_count = 0, m_capacity = capacity\<rparr>"
proof -
  let ?us = "replicate (unat capacity) \<lparr>m_active = False, m_next = nullptr, m_object = d\<rparr>"
  let ?p = "\<lparr>m_first_available = nullptr, m_pool = Some ?us, m_active_count = 0,
             m_capacity = capacity\<rparr>"
  have "ObjectPool_clear ?p =
          Inr (?p\<lparr>m_first_available := UnitPtr 0, m_pool := Some (cleared ?us),
                   m_active_count := 0\<rparr>)"
    by (rule ObjectPool_clear_ok) (use assms in simp_all)
  with assms(2) show ?thesis
    by (simp add: ObjectPool_ctor_def ObjectPool_inflatePool_def del: replicate.simps)
qed

lemma ObjectPool_ctor_BadAlloc:
  "\<not> mem (unat capacity) \<Longrightarrow> ObjectPool_ctor mem d capacity = Inl BadAlloc"
  by (simp add: ObjectPool_ctor_def ObjectPool_inflatePool_def)

lemma ObjectPool_ctor_mem: "ObjectPool_ctor mem d capacity = Inr p \<Longrightarrow> mem (unat capacity)"
  by (rule ccontr) (simp add: ObjectPool_ctor_BadAlloc)

subsection \<open>Free lists\<close>

lemma is_free_list_update:
  "k \<notin> set ks \<Longrightarrow> is_free_list (us[k := x]) q ks = is_free_list us q ks"
  by (induction ks arbitrary: q) auto

lemma is_free_list_bound: "is_free_list us q ks \<Longrightarrow> \<forall>k\<in>set ks. k < length us"
  by (induction ks arbitrary: q) auto

lemma is_free_list_unique: "is_free_list us q ks \<Longrightarrow> is_free_list us q ks' \<Longrightarrow> ks = ks'"
proof (induction ks arbitrary: q ks')
  case Nil
  then show ?case by (cases ks') auto
next
  case (Cons k ks)
  then show ?case by (cases ks') auto
qed

lemma is_free_list_cleared:
  "i < length us \<Longrightarrow> n = length us - i \<Longrightarrow> is_free_list (cleared us) (UnitPtr i) [i..<length us]"
proof (induction n arbitrary: i)
  case 0
  then show ?case by simp
next
  case (Suc n)
  show ?case
  proof (cases "Suc i < length us")
    case True
    with Suc show ?thesis
      by (simp add: upt_conv_Cons [of i] nth_cleared)
  next
    case False
    with Suc.prems have "[i..<length us] = [i]"
      by (simp add: upt_conv_Cons)
    with False Suc.prems show ?thesis
      by (simp add: nth_cleared)
  qed
qed

subsection \<open>activate and deactivate of ObjectPool\<close>

lemma ObjectPool_activate_Some:
  "m_pool p = Some us \<Longrightarrow> m_first_available p = UnitPtr k \<Longrightarrow> k < length us \<Longrightarrow>
   ObjectPool_activate p =
     Inr (p\<lparr>m_first_available := m_next (us ! k),
            m_pool := Some (us[k := (us ! k)\<lparr>m_active := True\<rparr>]),
            m_active_count := m_active_count p + 1\<rparr>, UnitPtr k)"
  by (simp add: ObjectPool_activate_def assign_through_def deref_def write_unit_def read_unit_def)

lemma ObjectPool_activate_null:
  "m_first_available p = nullptr \<Longrightarrow> ObjectPool_activate p = Inr (p, nullptr)"
  by (simp add: ObjectPool_activate_def)

lemma ObjectPool_deactivate_Some:
  "m_pool p = Some us \<Longrightarrow> index < m_capacity p \<Longrightarrow> unat index < length us \<Longrightarrow>
   ObjectPool_deactivate index p =
     Inr (p\<lparr>m_first_available := UnitPtr (unat index),
            m_pool := Some (us[unat index :=
               (us ! unat index)\<lparr>m_active := False, m_next := m_first_available p\<rparr>]),
            m_active_count := m_active_count p - 1\<rparr>)"
  by (simp add: ObjectPool_deactivate_def write_unit_def)

lemma ObjectPool_active_Some:
  "m_pool p = Some us \<Longrightarrow> unat index < length us \<Longrightarrow>
   ObjectPool_active p index = Inr (m_active (us ! unat index))"
  by (simp add: ObjectPool_active_def read_unit_def)

lemma ObjectPool_active_InrD:
  "ObjectPool_active p index = Inr b \<Longrightarrow>
   \<exists>us. m_pool p = Some us \<and> unat index < length us \<and> b = m_active (us ! unat index)"
  by (auto simp: ObjectPool_active_def read_unit_def split: option.splits if_splits)

subsection \<open>The invariant of the free list of ObjectPool\<close>

lemma distinct_length_less:
  assumes "distinct ks" "\<forall>k\<in>set ks. k < n" "i < n" "i \<notin> set ks"
  shows "length ks < n"
proof -
  have "set ks \<subseteq> {..<n} - {i}"
    using assms by auto
  then have "card (set ks) \<le> card ({..<n} - {i})"
    by (intro card_mono) auto
  also have "\<dots> = n - 1"
    using assms(3) by simp
  finally show ?thesis
    using assms(1,3) by (simp add: distinct_card)
qed

lemma free_list_inv_ctor:
  assumes "0 < capacity" "mem (unat capacity)"
  shows "\<exists>p. ObjectPool_ctor mem d capacity = Inr p \<and> free_list_inv p"
proof -
  let ?us = "replicate (unat capacity) \<lparr>m_active = False, m_next = nullptr, m_object = d\<rparr>"
  have n: "0 < length ?us"
    using assms by (simp add: word_less_nat_alt)
  have "is_free_list (cleared ?us) (UnitPtr 0) [0..<length ?us]"
    by (rule is_free_list_cleared [OF n refl])
  then show ?thesis
    using assms n
    by (auto simp: ObjectPool_ctor_ok free_list_inv_def nth_cleared simp del: replicate.simps)
qed

lemma free_list_inv_clear:
  assumes "free_list_inv p"
  shows "\<exists>p'. ObjectPool_clear p = Inr p' \<and> free_list_inv p'"
proof -
  from assms obtain us where us: "m_pool p = Some us" "length us = unat (m_capacity p)"
    "0 < m_capacity p"
    by (auto simp: free_list_inv_def)
  then have n: "0 < length us"
    by (simp add: word_less_nat_alt)
  have "is_free_list (cleared us) (UnitPtr 0) [0..<length us]"
    by (rule is_free_list_cleared [OF n refl])
  then show ?thesis
    using us n by (auto simp: ObjectPool_clear_ok [OF us] free_list_inv_def nth_cleared)
qed

lemma free_list_inv_activate:
  assumes "free_list_inv p"
  shows "\<exists>p' h. ObjectPool_activate p = Inr (p', h) \<and> free_list_inv p'"
proof -
  from assms obtain us fl where us: "m_pool p = Some us" "length us = unat (m_capacity p)"
    "0 < m_capacity p" and fl: "is_free_list us (m_first_available p) fl" "distinct fl"
    "\<forall>k\<in>set fl. \<not> m_active (us ! k)" "unat (m_active_count p) + length fl = length us"
    by (auto simp: free_list_inv_def)
  show ?thesis
  proof (cases fl)
    case Nil
    with fl(1) have "ObjectPool_activate p = Inr (p, nullptr)"
      by (simp add: ObjectPool_activate_null)
    with assms show ?thesis by simp
  next
    case (Cons k ks)
    with fl have k: "m_first_available p = UnitPtr k" "k < length us"
      and ks: "is_free_list us (m_next (us ! k)) ks" "k \<notin> set ks" "distinct ks"
      by simp_all
    let ?us = "us[k := (us ! k)\<lparr>m_active := True\<rparr>]"
    let ?p = "p\<lparr>m_first_available := m_next (us ! k), m_pool := Some ?us,
               m_active_count := m_active_count p + 1\<rparr>"
    have act: "ObjectPool_activate p = Inr (?p, UnitPtr k)"
      by (rule ObjectPool_activate_Some [OF us(1) k])
    have "unat (m_active_count p) < unat (m_capacity p)"
      using fl(4) us(2) Cons by simp
    then have cnt: "unat (m_active_count p + 1) = unat (m_active_count p) + 1"
      by (intro unat_succ_below [of _ "m_capacity p"]) (simp add: word_less_nat_alt)
    have "is_free_list ?us (m_next (us ! k)) ks"
      using ks by (simp add: is_free_list_update)
    moreover have "\<forall>j\<in>set ks. \<not> m_active (?us ! j)"
      using fl(3) ks(2) Cons by (metis list.set_intros(2) nth_list_update_neq)
    ultimately have "free_list_inv ?p"
      using us fl(4) ks(3) cnt Cons unfolding free_list_inv_def
      by (intro exI [of _ ?us] exI [of _ ks]) simp
    with act show ?thesis by blast
  qed
qed

lemma free_list_inv_deactivate:
  assumes "free_list_inv p" "ObjectPool_active p index = Inr True"
  shows "\<exists>p'. ObjectPool_deactivate index p = Inr p' \<and> free_list_inv p'"
proof -
  from assms(1) obtain us fl where us: "m_pool p = Some us" "length us = unat (m_capacity p)"
    "0 < m_capacity p" and fl: "is_free_list us (m_first_available p) fl" "distinct fl"
    "\<forall>k\<in>set fl. \<not> m_active (us ! k)" "unat (m_active_count p) + length fl = length us"
    by (auto simp: free_list_inv_def)
  from assms(2) us(1) have i: "unat index < length us" "m_active (us ! unat index)"
    by (auto dest: ObjectPool_active_InrD)
  then have lt: "index < m_capacity p"
    using us(2) by (simp add: word_less_nat_alt)
  let ?i = "unat index"
  let ?us = "us[?i := (us ! ?i)\<lparr>m_active := False, m_next := m_first_available p\<rparr>]"
  let ?p = "p\<lparr>m_first_available := UnitPtr ?i, m_pool := Some ?us,
             m_active_count := m_active_count p - 1\<rparr>"
  have de: "ObjectPool_deactivate index p = Inr ?p"
    by (rule ObjectPool_deactivate_Some [OF us(1) lt i(1)])
  have notin: "?i \<notin> set fl"
    using fl(3) i(2) by auto
  have "length fl < length us"
    by (rule distinct_length_less [OF fl(2) is_free_list_bound [OF fl(1)] i(1) notin])
  then have "m_active_count p \<noteq> 0"
    using fl(4) by auto
  then have cnt: "unat (m_active_count p - 1) = unat (m_active_count p) - 1"
    "0 < unat (m_active_count p)"
    by (simp_all add: unat_minus_one unat_gt_0)
  have "is_free_list ?us (m_first_available p) fl"
    using fl(1) notin by (simp add: is_free_list_update)
  moreover have "\<forall>j\<in>set fl. \<not> m_active (?us ! j)"
    using fl(3) notin by (metis nth_list_update_neq)
  ultimately have "free_list_inv ?p"
    using us fl(2,4) cnt i(1) notin unfolding free_list_inv_def
    by (intro exI [of _ ?us] exI [of _ "?i # fl"]) simp
  with de show ?thesis by blast
qed

lemma free_list_inv_run:
  "free_list_inv p \<Longrightarrow> ObjectPool_legal cs p \<Longrightarrow>
   \<exists>p'. ObjectPool_run cs p = Inr p' \<and> free_list_inv p'"
proof (induction cs arbitrary: p)
  case Nil
  then show ?case by simp
next
  case (Cons c cs)
  have "\<exists>p'. ObjectPool_step c p = Inr p' \<and> free_list_inv p'"
  proof (cases c)
    case Activate
    with free_list_inv_activate [OF Cons.prems(1)] show ?thesis
      by (auto simp: ObjectPool_step_def)
  next
    case (Deactivate i)
    with Cons.prems have "ObjectPool_active p i = Inr True" by simp
    from free_list_inv_deactivate [OF Cons.prems(1) this] Deactivate show ?thesis
      by (simp add: ObjectPool_step_def)
  next
    case Clear
    with free_list_inv_clear [OF Cons.prems(1)] show ?thesis
      by (simp add: ObjectPool_step_def)
  qed
  then obtain p' where p': "ObjectPool_step c p = Inr p'" "free_list_inv p'"
    by blast
  with Cons.prems have "ObjectPool_legal cs p'" by simp
  from Cons.IH [OF p'(2) this] p'(1) show ?case by simp
qed

subsection \<open>Evaluation on concrete pools\<close>

lemma replicate_numeral: "replicate (numeral k) x = x # replicate (pred_numeral k) x"
  by (simp add: numeral_eq_Suc)

lemmas pool_eval =
  free_store_of_def ObjectPool_ctor_def ObjectPool_inflatePool_def ObjectPool_clear_def ObjectPool_clear_loop.simps
  ObjectPool_activate_def ObjectPool_deactivate_def ObjectPool_active_def ObjectPool_step_def
  write_unit_def read_unit_def deref_def assign_through_def replicate_numeral

lemma ObjectPool_ctor_zero:
  "ObjectPool_ctor mem d 0 = (if mem 0 then Inl OutOfBounds else Inl BadAlloc)"
  by (simp add: pool_eval)

lemma ObjectPool_ctor_InrD: "ObjectPool_ctor mem d capacity = Inr p \<Longrightarrow> 0 < capacity"
  by (cases "capacity = 0") (simp_all add: ObjectPool_ctor_zero word_neq_0_conv split: if_splits)

subsection \<open>Well-formed pools\<close>

lemma valid_ptr_simps [simp]:
  "valid_ptr n nullptr" "valid_ptr n (UnitPtr k) = (k < n)"
  by (simp_all add: valid_ptr_def)

lemma valid_next_update:
  assumes "\<forall>u\<in>set us. valid_ptr n (m_next u)" "valid_ptr n (m_next x)"
  shows "\<forall>u\<in>set (us[k := x]). valid_ptr n (m_next u)"
  using assms set_update_subset_insert [of us k x] by auto

lemma cleared_eq_Nil [simp]: "cleared us = [] \<longleftrightarrow> us = []"
  by (simp add: cleared_def)

lemma valid_next_cleared: "\<forall>u\<in>set (cleared us). valid_ptr (length us) (m_next u)"
  by (auto simp: cleared_def)

lemma pool_wf_ctor:
  assumes "ObjectPool_ctor mem d capacity = Inr p"
  shows "pool_wf p"
proof -
  from assms have c: "0 < capacity"
    by (rule ObjectPool_ctor_InrD)
  then have "0 < unat capacity"
    by (simp add: word_less_nat_alt)
  with assms c ObjectPool_ctor_mem [OF assms] valid_next_cleared [of "replicate (unat capacity)
      \<lparr>m_active = False, m_next = nullptr, m_object = d\<rparr>"]
  show ?thesis
    by (auto simp: ObjectPool_ctor_ok pool_wf_def simp del: replicate.simps)
qed

lemma pool_wf_clear:
  assumes "pool_wf p"
  shows "\<exists>p'. ObjectPool_clear p = Inr p' \<and> pool_wf p'"
proof -
  from assms obtain us where us: "m_pool p = Some us" "length us = unat (m_capacity p)"
    "0 < m_capacity p"
    by (auto simp: pool_wf_def)
  then have "0 < length us"
    by (simp add: word_less_nat_alt)
  with us valid_next_cleared [of us] show ?thesis
    by (auto simp: ObjectPool_clear_ok [OF us] pool_wf_def)
qed

lemma pool_wf_activate:
  assumes "pool_wf p"
  shows "\<exists>p' h. ObjectPool_activate p = Inr (p', h) \<and> pool_wf p'"
proof (cases "m_first_available p")
  case nullptr
  with assms show ?thesis
    by (auto simp: ObjectPool_activate_null)
next
  case (UnitPtr k)
  from assms obtain us where us: "m_pool p = Some us" "length us = unat (m_capacity p)"
    "0 < m_capacity p" "valid_ptr (length us) (m_first_available p)"
    "\<forall>u\<in>set us. valid_ptr (length us) (m_next u)"
    by (auto simp: pool_wf_def)
  from us(4) UnitPtr have k: "k < length us" by simp
  then have "valid_ptr (length us) (m_next (us ! k))"
    using us(5) by simp
  moreover from this have "\<forall>u\<in>set (us[k := (us ! k)\<lparr>m_active := True\<rparr>]).
      valid_ptr (length us) (m_next u)"
    by (intro valid_next_update [OF us(5)]) simp
  ultimately show ?thesis
    using us(1,2,3) by (simp add: ObjectPool_activate_Some [OF us(1) UnitPtr k] pool_wf_def)
qed

lemma pool_wf_deactivate:
  assumes "pool_wf p"
  shows "\<exists>p'. ObjectPool_deactivate index p = Inr p' \<and> pool_wf p'"
proof (cases "index < m_capacity p")
  case False
  with assms show ?thesis
    by (simp add: ObjectPool_deactivate_def)
next
  case True
  from assms obtain us where us: "m_pool p = Some us" "length us = unat (m_capacity p)"
    "0 < m_capacity p" "valid_ptr (length us) (m_first_available p)"
    "\<forall>u\<in>set us. valid_ptr (length us) (m_next u)"
    by (auto simp: pool_wf_def)
  from True us(2) have i: "unat index < length us"
    by (simp add: word_less_nat_alt)
  have "\<forall>u\<in>set (us[unat index :=
      (us ! unat index)\<lparr>m_active := False, m_next := m_first_available p\<rparr>]).
      valid_ptr (length us) (m_next u)"
    by (intro valid_next_update [OF us(5)]) (use us(4) in simp)
  then show ?thesis
    using us(1,2,3) i by (simp add: ObjectPool_deactivate_Some [OF us(1) True i] pool_wf_def)
qed

lemma pool_wf_step:
  assumes "pool_wf p"
  shows "\<exists>p'. ObjectPool_step c p = Inr p' \<and> pool_wf p'"
proof (cases c)
  case Activate
  with pool_wf_activate [OF assms] show ?thesis
    by (auto simp: ObjectPool_step_def)
next
  case (Deactivate i)
  with pool_wf_deactivate [OF assms, of i] show ?thesis
    by (simp add: ObjectPool_step_def)
next
  case Clear
  with pool_wf_clear [OF assms] show ?thesis
    by (simp add: ObjectPool_step_def)
qed

lemma pool_wf_run: "pool_wf p \<Longrightarrow> \<exists>p'. ObjectPool_run cs p = Inr p' \<and> pool_wf p'"
proof (induction cs arbitrary: p)
  case Nil
  then show ?case by simp
next
  case (Cons c cs)
  from pool_wf_step [OF Cons.prems, of c] obtain p' where
    p': "ObjectPool_step c p = Inr p'" "pool_wf p'"
    by blast
  from Cons.IH [OF p'(2)] p'(1) show ?case by simp
qed

lemma pool_wf_reachable:
  assumes "ObjectPool_ctor mem d capacity = Inr p0" "ObjectPool_run cs p0 = Inr p"
  shows "pool_wf p"
  using pool_wf_run [OF pool_wf_ctor [OF assms(1)], of cs] assms(2) by simp

subsection \<open>Popping the free list\<close>

lemma activate_times_free_list:
  "m_pool p = Some us \<Longrightarrow> is_free_list us (m_first_available p) ks \<Longrightarrow> distinct ks \<Longrightarrow>
   \<exists>q. ObjectPool_activate_times (length ks) p = Inr (q, map UnitPtr ks) \<and>
       m_first_available q = nullptr"
proof (induction ks arbitrary: p us)
  case Nil
  then show ?case by simp
next
  case (Cons k ks)
  then have k: "m_first_available p = UnitPtr k" "k < length us"
    and ks: "is_free_list us (m_next (us ! k)) ks" "k \<notin> set ks" "distinct ks"
    by simp_all
  let ?us = "us[k := (us ! k)\<lparr>m_active := True\<rparr>]"
  let ?p = "p\<lparr>m_first_available := m_next (us ! k), m_pool := Some ?us,
             m_active_count := m_active_count p + 1\<rparr>"
  have act: "ObjectPool_activate p = Inr (?p, UnitPtr k)"
    by (rule ObjectPool_activate_Some [OF Cons.prems(1) k])
  have "is_free_list ?us (m_first_available ?p) ks"
    using ks by (simp add: is_free_list_update)
  from Cons.IH [OF _ this ks(3)] obtain q where
    "ObjectPool_activate_times (length ks) ?p = Inr (q, map UnitPtr ks)"
    "m_first_available q = nullptr"
    by auto
  with act show ?case by simp
qed

subsection \<open>clear and the constructor of IndexedObjectPool\<close>

lemma IndexedObjectPool_clear_loop_spec:
  "m_pool p = Some us \<Longrightarrow> length us = unat (m_capacity p) \<Longrightarrow> i \<le> m_capacity p \<Longrightarrow>
   n = unat (m_capacity p) - unat i \<Longrightarrow>
   IndexedObjectPool_clear_loop i p =
     Inr (p\<lparr>m_pool := Some (take (unat i) us @
            map (\<lambda>j. (us ! j)\<lparr>m_active := False, m_index := of_nat j, m_next := UnitPtr (j + 1)\<rparr>)
              [unat i..<length us])\<rparr>)"
proof (induction n arbitrary: i p us)
  case 0
  then have "\<not> i < m_capacity p" "unat i = length us"
    by (auto simp: word_less_nat_alt word_le_nat_alt)
  with 0 show ?case
    by (simp add: IndexedObjectPool_clear_loop.simps)
next
  case (Suc n)
  then have lt: "i < m_capacity p"
    by (simp add: word_less_nat_alt)
  then have k: "unat i < length us" and s: "unat (i + 1) = unat i + 1"
    using Suc.prems(2) by (simp_all add: word_less_nat_alt unat_succ_below)
  let ?x = "(us ! unat i)\<lparr>m_active := False, m_index := i, m_next := UnitPtr (unat i + 1)\<rparr>"
  let ?p = "p\<lparr>m_pool := Some (us[unat i := ?x])\<rparr>"
  have le: "i + 1 \<le> m_capacity ?p"
    using lt by (simp add: inc_le)
  have "IndexedObjectPool_clear_loop (i + 1) ?p =
     Inr (?p\<lparr>m_pool := Some (take (unat (i + 1)) (us[unat i := ?x]) @
            map (\<lambda>j. (us[unat i := ?x] ! j)\<lparr>m_active := False, m_index := of_nat j,
                                               m_next := UnitPtr (j + 1)\<rparr>)
              [unat (i + 1)..<length (us[unat i := ?x])])\<rparr>)"
    by (rule Suc.IH [OF _ _ le]) (use Suc.prems s in simp_all)
  moreover have "map (\<lambda>j. (us[unat i := ?x] ! j)\<lparr>m_active := False, m_index := of_nat j,
                                                m_next := UnitPtr (j + 1)\<rparr>)
              [unat i + 1..<length us] =
       map (\<lambda>j. (us ! j)\<lparr>m_active := False, m_index := of_nat j, m_next := UnitPtr (j + 1)\<rparr>)
         [unat i + 1..<length us]"
    by simp
  ultimately show ?case
    using k lt Suc.prems(1)
    by (simp add: IndexedObjectPool_clear_loop.simps [of i p] write_unit_Some s take_Suc_update
        upt_conv_Cons [of "unat i"])
qed

lemma indexed_cleared_from_loop:
  assumes "0 < length us"
  shows "(map (\<lambda>j. (us ! j)\<lparr>m_active := False, m_index := of_nat j, m_next := UnitPtr (j + 1)\<rparr>)
            [0..<length us])
           [length us - 1 :=
              (map (\<lambda>j. (us ! j)\<lparr>m_active := False, m_index := of_nat j, m_next := UnitPtr (j + 1)\<rparr>)
                 [0..<length us] ! (length us - 1))\<lparr>m_next := nullptr\<rparr>] = indexed_cleared us"
  using assms by (auto simp: indexed_cleared_def nth_list_update intro!: nth_equalityI)

lemma length_indexed_cleared [simp]: "length (indexed_cleared us) = length us"
  by (simp add: indexed_cleared_def)

lemma indexed_cleared_eq_Nil [simp]: "indexed_cleared us = [] \<longleftrightarrow> us = []"
  by (simp add: indexed_cleared_def)

lemma nth_indexed_cleared:
  "j < length us \<Longrightarrow>
   indexed_cleared us ! j =
     (us ! j)\<lparr>m_active := False, m_index := of_nat j,
              m_next := (if Suc j < length us then UnitPtr (Suc j) else nullptr)\<rparr>"
  by (simp add: indexed_cleared_def)

lemma IndexedObjectPool_clear_ok:
  assumes "m_pool p = Some us" "length us = unat (m_capacity p)" "0 < m_capacity p"
  shows "IndexedObjectPool_clear p =
           Inr (p\<lparr>m_first_available := UnitPtr 0, m_pool := Some (indexed_cleared us),
                  m_active_count := 0, m_highest_active_index := 0\<rparr>)"
proof -
  have n: "0 < length us" "unat (m_capacity p - 1) = length us - 1"
    using assms by (simp_all add: unat_pred_capacity word_less_nat_alt)
  have "IndexedObjectPool_clear_loop 0 (p\<lparr>m_first_available := UnitPtr 0\<rparr>) =
        Inr (p\<lparr>m_first_available := UnitPtr 0,
               m_pool := Some (map (\<lambda>j. (us ! j)\<lparr>m_active := False, m_index := of_nat j,
                                                   m_next := UnitPtr (j + 1)\<rparr>)
                                 [0..<length us])\<rparr>)"
    using IndexedObjectPool_clear_loop_spec
      [of "p\<lparr>m_first_available := UnitPtr 0\<rparr>" us 0, OF _ _ _ refl] assms
    by simp
  then show ?thesis
    using n indexed_cleared_from_loop [OF n(1)]
    by (simp add: IndexedObjectPool_clear_def write_unit_def)
qed

lemma IndexedObjectPool_ctor_ok:
  assumes "0 < capacity" "mem (unat capacity)"
  shows "IndexedObjectPool_ctor mem d capacity =
           Inr \<lparr>m_first_available = UnitPtr 0,
                m_pool = Some (indexed_cleared (replicate (unat capacity)
                           \<lparr>m_active = False, m_next = nullptr, m_object = d, m_index = 0\<rparr>)),
                m_active_count = 0, m_capacity = capacity, m_highest_active_index = 0\<rparr>"
proof -
  let ?us = "replicate (unat capacity)
    \<lparr>m_active = False, m_next = nullptr, m_object = d, m_index = 0\<rparr>"
  let ?p = "\<lparr>m_first_available = nullptr, m_pool = Some ?us, m_active_count = 0,
             m_capacity = capacity, m_highest_active_index = 0\<rparr>"
  have "IndexedObjectPool_clear ?p =
          Inr (?p\<lparr>m_first_available := UnitPtr 0, m_pool := Some (indexed_cleared ?us),
                   m_active_count := 0, m_highest_active_index := 0\<rparr>)"
    by (rule IndexedObjectPool_clear_ok) (use assms in simp_all)
  with assms(2) show ?thesis
    by (simp add: IndexedObjectPool_ctor_def IndexedObjectPool_inflatePool_def
        del: replicate.simps)
qed

lemma IndexedObjectPool_ctor_BadAlloc:
  "\<not> mem (unat capacity) \<Longrightarrow> IndexedObjectPool_ctor mem d capacity = Inl BadAlloc"
  by (simp add: IndexedObjectPool_ctor_def IndexedObjectPool_inflatePool_def)

lemma IndexedObjectPool_ctor_mem:
  "IndexedObjectPool_ctor mem d capacity = Inr p \<Longrightarrow> mem (unat capacity)"
  by (rule ccontr) (simp add: IndexedObjectPool_ctor_BadAlloc)

lemmas indexed_pool_eval =
  free_store_of_def IndexedObjectPool_ctor_def IndexedObjectPool_inflatePool_def IndexedObjectPool_clear_def
  IndexedObjectPool_clear_loop.simps IndexedObjectPool_activate_def
  IndexedObjectPool_deactivate_def IndexedObjectPool_active_def IndexedObjectPool_step_def
  find_previous_highest.simps
  write_unit_def read_unit_def deref_def assign_through_def replicate_numeral

lemma IndexedObjectPool_ctor_zero:
  "IndexedObjectPool_ctor mem d 0 = (if mem 0 then Inl OutOfBounds else Inl BadAlloc)"
  by (simp add: indexed_pool_eval)

lemma IndexedObjectPool_ctor_InrD: "IndexedObjectPool_ctor mem d capacity = Inr p \<Longrightarrow> 0 < capacity"
  by (cases "capacity = 0")
    (simp_all add: IndexedObjectPool_ctor_zero word_neq_0_conv split: if_splits)

lemma is_free_list_indexed_cleared:
  "i < length us \<Longrightarrow> n = length us - i \<Longrightarrow>
   is_free_list (indexed_cleared us) (UnitPtr i) [i..<length us]"
proof (induction n arbitrary: i)
  case 0
  then show ?case by simp
next
  case (Suc n)
  show ?case
  proof (cases "Suc i < length us")
    case True
    with Suc show ?thesis
      by (simp add: upt_conv_Cons [of i] nth_indexed_cleared)
  next
    case False
    with Suc.prems have "[i..<length us] = [i]"
      by (simp add: upt_conv_Cons)
    with False Suc.prems show ?thesis
      by (simp add: nth_indexed_cleared)
  qed
qed

subsection \<open>activate of IndexedObjectPool and the reverse loop\<close>

lemma IndexedObjectPool_activate_Some:
  "m_pool p = Some us \<Longrightarrow> m_first_available p = UnitPtr k \<Longrightarrow> k < length us \<Longrightarrow>
   IndexedObjectPool_activate p =
     Inr (p\<lparr>m_first_available := m_next (us ! k),
            m_pool := Some (us[k := (us ! k)\<lparr>m_active := True\<rparr>]),
            m_active_count := m_active_count p + 1,
            m_highest_active_index :=
              (if m_index (us ! k) > m_highest_active_index p then m_index (us ! k)
               else m_highest_active_index p)\<rparr>, UnitPtr k)"
  by (simp add: IndexedObjectPool_activate_def assign_through_def deref_def write_unit_def
      read_unit_def Let_def)

lemma IndexedObjectPool_activate_null:
  "m_first_available p = nullptr \<Longrightarrow> IndexedObjectPool_activate p = Inr (p, nullptr)"
  by (simp add: IndexedObjectPool_activate_def)

lemma IndexedObjectPool_activate_InrD:
  assumes "IndexedObjectPool_activate p = Inr (p', h)"
  shows "(m_first_available p = nullptr \<and> p' = p \<and> h = nullptr) \<or>
         (\<exists>us k. m_pool p = Some us \<and> m_first_available p = UnitPtr k \<and> k < length us)"
  using assms
  by (cases "m_first_available p")
     (auto simp: IndexedObjectPool_activate_def assign_through_def write_unit_def
           split: option.splits if_splits)

lemma IndexedObjectPool_active_InrD:
  "IndexedObjectPool_active p index = Inr b \<Longrightarrow>
   \<exists>us. m_pool p = Some us \<and> unat index < length us \<and> b = m_active (us ! unat index)"
  by (auto simp: IndexedObjectPool_active_def read_unit_def split: option.splits if_splits)

lemma find_previous_highest_extend:
  assumes "\<not> A (Suc m)"
    and "(h = 0 \<and> (\<forall>j\<le>m. \<not> A j)) \<or>
         (unat h \<le> m \<and> A (unat h) \<and> (\<forall>j. unat h < j \<and> j \<le> m \<longrightarrow> \<not> A j))"
  shows "(h = 0 \<and> (\<forall>j\<le>Suc m. \<not> A j)) \<or>
         (unat h \<le> Suc m \<and> A (unat h) \<and> (\<forall>j. unat h < j \<and> j \<le> Suc m \<longrightarrow> \<not> A j))"
  using assms by (auto simp: le_Suc_eq)

lemma find_previous_highest_spec:
  "m_pool p = Some us \<Longrightarrow> length us = unat (m_capacity p) \<Longrightarrow> unat i < length us \<Longrightarrow>
   n = unat i \<Longrightarrow>
   \<exists>h. find_previous_highest i p = Inr (p\<lparr>m_highest_active_index := h\<rparr>) \<and>
       ((h = 0 \<and> (\<forall>j\<le>unat i. \<not> m_active (us ! j))) \<or>
        (unat h \<le> unat i \<and> m_active (us ! unat h) \<and>
         (\<forall>j. unat h < j \<and> j \<le> unat i \<longrightarrow> \<not> m_active (us ! j))))"
proof (induction n arbitrary: i)
  case 0
  then have i: "i = 0" by (simp add: unat_eq_zero)
  show ?case
  proof (cases "m_active (us ! 0)")
    case True
    with 0 i show ?thesis
      by (intro exI [of _ 0]) (auto simp: find_previous_highest.simps [of 0] read_unit_def)
  next
    case False
    with 0 i show ?thesis
      by (intro exI [of _ 0])
         (auto simp: find_previous_highest.simps [of 0] find_previous_highest.simps [of "- 1"]
            read_unit_def)
  qed
next
  case (Suc n)
  have "i < m_capacity p"
    using Suc.prems(2,3) by (simp add: word_less_nat_alt)
  then have "i < - 1"
    using word_order.extremum [of "m_capacity p"] by (rule less_le_trans)
  then have ne: "i \<noteq> - 1" by simp
  from Suc.prems(4) have nz: "i \<noteq> 0" by auto
  then have pred: "unat (i - 1) = unat i - 1"
    by (simp add: unat_minus_one)
  with Suc.prems(4) have suc: "unat i = Suc (unat (i - 1))" by simp
  show ?case
  proof (cases "m_active (us ! unat i)")
    case True
    have "find_previous_highest i p = Inr (p\<lparr>m_highest_active_index := i\<rparr>)"
      using Suc.prems(1,3) ne True
      by (simp add: find_previous_highest.simps [of i] read_unit_def)
    with True show ?thesis
      by (intro exI [of _ i]) auto
  next
    case False
    from Suc.prems pred have "unat (i - 1) < length us" "n = unat (i - 1)"
      by simp_all
    from Suc.IH [OF Suc.prems(1,2) this] obtain h where
      h: "find_previous_highest (i - 1) p = Inr (p\<lparr>m_highest_active_index := h\<rparr>)"
      "(h = 0 \<and> (\<forall>j\<le>unat (i - 1). \<not> m_active (us ! j))) \<or>
        (unat h \<le> unat (i - 1) \<and> m_active (us ! unat h) \<and>
         (\<forall>j. unat h < j \<and> j \<le> unat (i - 1) \<longrightarrow> \<not> m_active (us ! j)))"
      by blast
    have step: "find_previous_highest i p = find_previous_highest (i - 1) p"
      using Suc.prems(1,3) ne False
      by (simp add: find_previous_highest.simps [of i] read_unit_def)
    from False have "\<not> m_active (us ! Suc (unat (i - 1)))"
      by (simp add: suc [symmetric])
    from find_previous_highest_extend [of "\<lambda>j. m_active (us ! j)", OF this h(2)]
    have "(h = 0 \<and> (\<forall>j\<le>unat i. \<not> m_active (us ! j))) \<or>
        (unat h \<le> unat i \<and> m_active (us ! unat h) \<and>
         (\<forall>j. unat h < j \<and> j \<le> unat i \<longrightarrow> \<not> m_active (us ! j)))"
      by (simp add: suc [symmetric])
    with h(1) step show ?thesis
      by (intro exI [of _ h]) simp
  qed
qed

subsection \<open>deactivate of IndexedObjectPool\<close>

lemma next_erased_update [simp]:
  "next_erased (us[k := (us ! k)\<lparr>m_next := x\<rparr>]) = next_erased us"
  by (cases "k < length us")
     (simp_all add: next_erased_def map_update list_update_same_conv list_update_beyond)

lemma next_erased_length: "next_erased us' = next_erased us \<Longrightarrow> length us' = length us"
  by (metis length_map next_erased_def)

lemma next_erased_nth:
  assumes "next_erased us' = next_erased us" "j < length us"
  shows "(us' ! j)\<lparr>m_next := nullptr\<rparr> = (us ! j)\<lparr>m_next := nullptr\<rparr>"
proof -
  have "length us' = length us"
    using assms(1) by (rule next_erased_length)
  with assms have "next_erased us' ! j = next_erased us ! j" "j < length us'"
    by simp_all
  with assms(2) show ?thesis
    by (simp add: next_erased_def)
qed

lemma next_erased_active:
  assumes "next_erased us' = next_erased us" "j < length us"
  shows "m_active (us' ! j) = m_active (us ! j)"
proof -
  have "m_active ((us' ! j)\<lparr>m_next := nullptr\<rparr>) = m_active ((us ! j)\<lparr>m_next := nullptr\<rparr>)"
    using next_erased_nth [OF assms] by simp
  then show ?thesis by simp
qed

lemma next_erased_object:
  assumes "next_erased us' = next_erased us" "j < length us"
  shows "m_object (us' ! j) = m_object (us ! j)"
proof -
  have "m_object ((us' ! j)\<lparr>m_next := nullptr\<rparr>) = m_object ((us ! j)\<lparr>m_next := nullptr\<rparr>)"
    using next_erased_nth [OF assms] by simp
  then show ?thesis by simp
qed

lemma next_erased_index:
  fixes us :: "'a IndexedPoolUnit list"
  assumes "next_erased us' = next_erased us" "j < length us"
  shows "m_index (us' ! j) = m_index (us ! j)"
proof -
  have "m_index ((us' ! j)\<lparr>m_next := nullptr\<rparr>) = m_index ((us ! j)\<lparr>m_next := nullptr\<rparr>)"
    using next_erased_nth [OF assms] by simp
  then show ?thesis by simp
qed

text \<open>
  What a call of \<open>deactivate\<close> that completes has done: the unit is inactive, the other
  members of the units are as before except for \<open>next_\<close>, the active count is one less,
  and the highest active index is kept or found by the reverse loop.
\<close>

lemma IndexedObjectPool_deactivate_InrD:
  assumes "IndexedObjectPool_deactivate index p = Inr p'" "index < m_capacity p"
    "m_pool p = Some us" "unat index < length us"
  shows "\<exists>us' fa'.
           next_erased us' = next_erased (us[unat index := (us ! unat index)\<lparr>m_active := False\<rparr>]) \<and>
           (fa' = UnitPtr (unat index) \<or>
            (\<exists>h. h \<noteq> unat index \<and> h < length us \<and> m_first_available p = UnitPtr h \<and>
                 fa' = UnitPtr h \<and> m_next (us' ! h) = UnitPtr (unat index))) \<and>
           (if m_highest_active_index p = index \<and> index \<noteq> 0
            then find_previous_highest (index - 1)
                   (p\<lparr>m_first_available := fa', m_pool := Some us',
                      m_active_count := m_active_count p - 1\<rparr>) = Inr p'
            else p' = p\<lparr>m_first_available := fa', m_pool := Some us',
                        m_active_count := m_active_count p - 1\<rparr>)"
proof -
  let ?i = "unat index"
  let ?us1 = "us[?i := (us ! ?i)\<lparr>m_active := False\<rparr>]"
  let ?p1 = "p\<lparr>m_pool := Some ?us1\<rparr>"
  let ?fa = "m_first_available p"
  let ?tail = "\<lambda>p3. (let p4 = p3\<lparr>m_active_count := m_active_count p3 - 1\<rparr> in
              if m_highest_active_index p4 = index then
                if index = 0 then Inr p4
                else find_previous_highest (m_highest_active_index p4 - 1) p4
              else Inr p4)"
  have tail: "?thesis" if "?tail p3 = Inr p'"
    "next_erased vs = next_erased ?us1"
    "q = UnitPtr ?i \<or>
     (\<exists>h. h \<noteq> ?i \<and> h < length us \<and> ?fa = UnitPtr h \<and> q = UnitPtr h \<and>
          m_next (vs ! h) = UnitPtr ?i)"
    "p3 = p\<lparr>m_first_available := q, m_pool := Some vs\<rparr>" for q vs p3
    using that
    by (intro exI [of _ vs] exI [of _ q]) (auto simp: Let_def split: if_splits)
  show ?thesis
  proof (cases "ptr_less ?fa (m_next (us ! ?i))")
    case False
    let ?us3 = "?us1[?i := (?us1 ! ?i)\<lparr>m_next := ?fa\<rparr>]"
    have "?tail (p\<lparr>m_pool := Some ?us3, m_first_available := UnitPtr ?i\<rparr>) = Inr p'"
      using assms False
      by (auto simp: IndexedObjectPool_deactivate_def write_unit_def read_unit_def Let_def
          split: if_splits)
    moreover have "next_erased ?us3 = next_erased ?us1"
      by (rule next_erased_update)
    moreover have "UnitPtr ?i = UnitPtr ?i \<or>
       (\<exists>h. h \<noteq> ?i \<and> h < length us \<and> ?fa = UnitPtr h \<and> UnitPtr ?i = UnitPtr h \<and>
            m_next (?us3 ! h) = UnitPtr ?i)"
      by simp
    ultimately show ?thesis
      by (rule tail [of _ ?us3 "UnitPtr ?i"]) simp
  next
    case True
    then obtain h where h: "?fa = UnitPtr h" "h < length us"
      using assms
      by (cases ?fa)
         (auto simp: IndexedObjectPool_deactivate_def write_unit_def read_unit_def deref_def
               split: if_splits)
    let ?us2 = "?us1[h := (?us1 ! h)\<lparr>m_next := UnitPtr ?i\<rparr>]"
    let ?us3 = "?us2[?i := (?us2 ! ?i)\<lparr>m_next := m_next (?us1 ! h)\<rparr>]"
    have "?tail (p\<lparr>m_pool := Some ?us3\<rparr>) = Inr p'"
      using assms True h
      by (auto simp: IndexedObjectPool_deactivate_def write_unit_def read_unit_def deref_def
          assign_through_def Let_def split: if_splits)
    moreover have "next_erased ?us3 = next_erased ?us1"
      using next_erased_update [of ?us2 ?i] next_erased_update [of ?us1 h] by simp
    moreover have "?fa = UnitPtr ?i \<or>
       (\<exists>k. k \<noteq> ?i \<and> k < length us \<and> ?fa = UnitPtr k \<and> ?fa = UnitPtr k \<and>
            m_next (?us3 ! k) = UnitPtr ?i)"
    proof (cases "h = ?i")
      case True
      with h(1) show ?thesis by simp
    next
      case False
      with h have "h \<noteq> ?i \<and> h < length us \<and> ?fa = UnitPtr h \<and> ?fa = UnitPtr h \<and>
            m_next (?us3 ! h) = UnitPtr ?i"
        by simp
      then show ?thesis by blast
    qed
    ultimately show ?thesis
      by (rule tail [of _ ?us3 ?fa]) simp
  qed
qed

subsection \<open>The highest active index\<close>

lemma set_active_indices: "set (active_indices us) = {j. j < length us \<and> m_active (us ! j)}"
  by (auto simp: active_indices_def)

lemma highest_invI_empty:
  assumes "\<forall>j<length us. \<not> m_active (us ! j)"
  shows "highest_inv us 0"
proof -
  have "set (active_indices us) = {}"
    using assms by (auto simp: set_active_indices)
  then show ?thesis
    by (simp add: highest_inv_def)
qed

lemma highest_invI_max:
  assumes "k < length us" "m_active (us ! k)" "\<forall>j<length us. m_active (us ! j) \<longrightarrow> j \<le> k"
    "unat h = k"
  shows "highest_inv us h"
proof -
  have "k \<in> set (active_indices us)"
    using assms(1,2) by (simp add: set_active_indices)
  moreover have "\<And>j. j \<in> set (active_indices us) \<Longrightarrow> j \<le> k"
    using assms(3) by (simp add: set_active_indices)
  ultimately have "Max (set (active_indices us)) = k"
    by (intro Max_eqI) auto
  moreover have "active_indices us \<noteq> []"
    using \<open>k \<in> set (active_indices us)\<close> by auto
  ultimately show ?thesis
    using assms(4) by (simp add: highest_inv_def)
qed

lemma highest_invD:
  assumes "highest_inv us h" "j < length us" "m_active (us ! j)"
  shows "j \<le> unat h" "unat h < length us" "m_active (us ! unat h)"
proof -
  have j: "j \<in> set (active_indices us)"
    using assms(2,3) by (simp add: set_active_indices)
  then have ne: "active_indices us \<noteq> []" by auto
  with assms(1) have h: "unat h = Max (set (active_indices us))"
    by (simp add: highest_inv_def)
  from j show "j \<le> unat h"
    unfolding h by (intro Max_ge) auto
  have "Max (set (active_indices us)) \<in> set (active_indices us)"
    using ne by (intro Max_in) auto
  then show "unat h < length us" "m_active (us ! unat h)"
    unfolding h by (simp_all add: set_active_indices)
qed

lemma highest_inv_emptyD:
  assumes "highest_inv us h" "\<forall>j<length us. \<not> m_active (us ! j)"
  shows "h = 0"
proof -
  have "set (active_indices us) = {}"
    using assms(2) by (auto simp: set_active_indices)
  with assms(1) show ?thesis
    by (simp add: highest_inv_def)
qed

lemma unat_of_nat_below: "k < unat (c::size_t) \<Longrightarrow> unat (of_nat k :: size_t) = k"
  by (rule le_unat_uoi [of k c]) simp

lemma indexed_inv_ctor:
  assumes "IndexedObjectPool_ctor mem d capacity = Inr p"
  shows "indexed_inv p"
proof -
  let ?us = "replicate (unat capacity)
    \<lparr>m_active = False, m_next = nullptr, m_object = d, m_index = 0\<rparr>"
  from assms have c: "0 < capacity"
    by (rule IndexedObjectPool_ctor_InrD)
  have "highest_inv (indexed_cleared ?us) 0"
    by (rule highest_invI_empty) (simp add: nth_indexed_cleared del: replicate.simps)
  with assms c IndexedObjectPool_ctor_mem [OF assms] show ?thesis
    by (auto simp: IndexedObjectPool_ctor_ok indexed_inv_def nth_indexed_cleared
        simp del: replicate.simps)
qed

lemma indexed_inv_clear:
  assumes "indexed_inv p" "IndexedObjectPool_clear p = Inr p'"
  shows "indexed_inv p'"
proof -
  from assms(1) obtain us where us: "m_pool p = Some us" "length us = unat (m_capacity p)"
    "0 < m_capacity p"
    by (auto simp: indexed_inv_def)
  have "highest_inv (indexed_cleared us) 0"
    by (rule highest_invI_empty) (simp add: nth_indexed_cleared)
  with assms(2) us show ?thesis
    by (auto simp: IndexedObjectPool_clear_ok [OF us] indexed_inv_def nth_indexed_cleared)
qed

lemma indexed_inv_activate:
  assumes "indexed_inv p" "IndexedObjectPool_activate p = Inr (p', q)"
  shows "indexed_inv p'"
proof -
  from assms(1) obtain us where us: "m_pool p = Some us" "length us = unat (m_capacity p)"
    "0 < m_capacity p" and idx: "\<forall>j<length us. m_index (us ! j) = of_nat j"
    and hi: "highest_inv us (m_highest_active_index p)"
    by (auto simp: indexed_inv_def)
  from IndexedObjectPool_activate_InrD [OF assms(2)] show ?thesis
  proof
    assume "m_first_available p = nullptr \<and> p' = p \<and> q = nullptr"
    with assms(1) show ?thesis by simp
  next
    assume "\<exists>us k. m_pool p = Some us \<and> m_first_available p = UnitPtr k \<and> k < length us"
    with us(1) obtain k where k: "m_first_available p = UnitPtr k" "k < length us"
      by auto
    let ?h = "m_highest_active_index p"
    let ?us = "us[k := (us ! k)\<lparr>m_active := True\<rparr>]"
    let ?h' = "if of_nat k > ?h then of_nat k else ?h"
    have uk: "unat (of_nat k :: size_t) = k"
      using k(2) us(2) by (simp add: unat_of_nat_below)
    have p': "p' = p\<lparr>m_first_available := m_next (us ! k), m_pool := Some ?us,
                     m_active_count := m_active_count p + 1,
                     m_highest_active_index := ?h'\<rparr>"
      using assms(2) idx k(2) by (auto simp: IndexedObjectPool_activate_Some [OF us(1) k])
    have act: "\<And>j. j < length us \<Longrightarrow> m_active (?us ! j) = (j = k \<or> m_active (us ! j))"
      using k(2) by (auto simp: nth_list_update)
    have "highest_inv ?us ?h'"
    proof (cases "\<exists>j<length us. m_active (us ! j)")
      case False
      then have "?h = 0"
        using highest_inv_emptyD [OF hi] by simp
      then have "unat ?h' = k"
        using uk by (auto simp: word_greater_zero_iff)
      then show ?thesis
        using k(2) False by (intro highest_invI_max [of k]) (simp_all add: act)
    next
      case True
      then obtain j0 where j0: "j0 < length us" "m_active (us ! j0)"
        by blast
      note m = highest_invD [OF hi j0]
      have m4: "\<forall>j<length us. m_active (us ! j) \<longrightarrow> j \<le> unat ?h"
        using highest_invD(1) [OF hi] by blast
      show ?thesis
      proof (cases "of_nat k > ?h")
        case True
        then have "unat ?h < k"
          using uk by (simp add: word_less_nat_alt)
        with True m4 k(2) show ?thesis
          by (intro highest_invI_max [of k]) (fastforce simp: act uk)+
      next
        case False
        then have "k \<le> unat ?h"
          using uk by (simp add: word_less_nat_alt)
        with False m m4 k(2) show ?thesis
          by (intro highest_invI_max [of "unat ?h"]) (fastforce simp: act)+
      qed
    qed
    moreover have "\<forall>j<length us. m_index (?us ! j) = of_nat j"
      using idx k(2) by (simp add: nth_list_update)
    ultimately show ?thesis
      using us by (simp add: p' indexed_inv_def)
  qed
qed

lemma indexed_deactivate_effect:
  assumes "indexed_inv p" "IndexedObjectPool_active p index = Inr True"
    "IndexedObjectPool_deactivate index p = Inr p'"
  shows "indexed_inv p' \<and>
         (\<exists>us us'. m_pool p = Some us \<and> m_pool p' = Some us' \<and> length us' = length us \<and>
            (\<forall>j<length us. m_active (us' ! j) = (j \<noteq> unat index \<and> m_active (us ! j))))"
proof -
  from assms(1) obtain us where us: "m_pool p = Some us" "length us = unat (m_capacity p)"
    "0 < m_capacity p" and idx: "\<forall>j<length us. m_index (us ! j) = of_nat j"
    and hi: "highest_inv us (m_highest_active_index p)"
    by (auto simp: indexed_inv_def)
  let ?i = "unat index"
  let ?h = "m_highest_active_index p"
  from assms(2) us(1) have i: "?i < length us" "m_active (us ! ?i)"
    by (auto dest: IndexedObjectPool_active_InrD)
  then have lt: "index < m_capacity p"
    using us(2) by (simp add: word_less_nat_alt)
  let ?us1 = "us[?i := (us ! ?i)\<lparr>m_active := False\<rparr>]"
  from IndexedObjectPool_deactivate_InrD [OF assms(3) lt us(1) i(1)] obtain us' fa' where
    er: "next_erased us' = next_erased ?us1"
    and link: "fa' = UnitPtr ?i \<or>
            (\<exists>h. h \<noteq> ?i \<and> h < length us \<and> m_first_available p = UnitPtr h \<and>
                 fa' = UnitPtr h \<and> m_next (us' ! h) = UnitPtr ?i)"
    and res: "if ?h = index \<and> index \<noteq> 0
            then find_previous_highest (index - 1)
                   (p\<lparr>m_first_available := fa', m_pool := Some us',
                      m_active_count := m_active_count p - 1\<rparr>) = Inr p'
            else p' = p\<lparr>m_first_available := fa', m_pool := Some us',
                        m_active_count := m_active_count p - 1\<rparr>"
    by blast
  let ?p4 = "p\<lparr>m_first_available := fa', m_pool := Some us',
               m_active_count := m_active_count p - 1\<rparr>"
  have len: "length us' = length us"
    using next_erased_length [OF er] by simp
  have act: "\<And>j. j < length us \<Longrightarrow> m_active (us' ! j) = (j \<noteq> ?i \<and> m_active (us ! j))"
    using next_erased_active [OF er] i(1) by (auto simp: nth_list_update)
  have idx': "\<forall>j<length us'. m_index (us' ! j) = of_nat j"
    using next_erased_index [OF er] idx len i(1) by (simp add: nth_list_update)
  note m = highest_invD [OF hi i] highest_invD(1) [OF hi]
  have "\<exists>h. p' = ?p4\<lparr>m_highest_active_index := h\<rparr> \<and> highest_inv us' h"
  proof (cases "?h = index \<and> index \<noteq> 0")
    case True
    then have pred: "unat (index - 1) = ?i - 1" "0 < ?i"
      by (simp_all add: unat_minus_one unat_gt_0)
    from True res have f: "find_previous_highest (index - 1) ?p4 = Inr p'"
      by simp
    have top: "\<And>j. j < length us \<Longrightarrow> m_active (us' ! j) \<Longrightarrow> j \<le> ?i - 1"
    proof -
      fix j assume "j < length us" "m_active (us' ! j)"
      then have "j \<noteq> ?i" "j \<le> unat ?h"
        using m(4) by (simp_all add: act)
      with True show "j \<le> ?i - 1" by simp
    qed
    have b: "m_pool ?p4 = Some us'" "length us' = unat (m_capacity ?p4)"
      "unat (index - 1) < length us'"
      using len us(2) i(1) pred by simp_all
    from find_previous_highest_spec [of ?p4 us' "index - 1", OF b refl]
    obtain h where h: "find_previous_highest (index - 1) ?p4 = Inr (?p4\<lparr>m_highest_active_index := h\<rparr>)"
      "(h = 0 \<and> (\<forall>j\<le>unat (index - 1). \<not> m_active (us' ! j))) \<or>
        (unat h \<le> unat (index - 1) \<and> m_active (us' ! unat h) \<and>
         (\<forall>j. unat h < j \<and> j \<le> unat (index - 1) \<longrightarrow> \<not> m_active (us' ! j)))"
      by blast
    from h(2) have "highest_inv us' h"
    proof
      assume a: "h = 0 \<and> (\<forall>j\<le>unat (index - 1). \<not> m_active (us' ! j))"
      have "highest_inv us' 0"
        by (rule highest_invI_empty) (use a top len pred in auto)
      with a show ?thesis by simp
    next
      assume a: "unat h \<le> unat (index - 1) \<and> m_active (us' ! unat h) \<and>
         (\<forall>j. unat h < j \<and> j \<le> unat (index - 1) \<longrightarrow> \<not> m_active (us' ! j))"
      show ?thesis
      proof (rule highest_invI_max [of "unat h"])
        show "unat h < length us'"
          using a pred i(1) len by auto
        show "m_active (us' ! unat h)"
          using a by simp
        show "\<forall>j<length us'. m_active (us' ! j) \<longrightarrow> j \<le> unat h"
        proof (intro allI impI)
          fix j assume j: "j < length us'" "m_active (us' ! j)"
          then have "j \<le> unat (index - 1)"
            using top len pred by simp
          with a j(2) show "j \<le> unat h"
            by (meson not_le_imp_less)
        qed
      qed simp
    qed
    with h(1) f show ?thesis by auto
  next
    case False
    with res have p': "p' = ?p4" by simp
    have "highest_inv us' ?h"
    proof (cases "?h = index")
      case True
      with False have z: "index = 0" by simp
      have "highest_inv us' 0"
      proof (rule highest_invI_empty, intro allI impI)
        fix j assume j: "j < length us'"
        show "\<not> m_active (us' ! j)"
        proof
          assume "m_active (us' ! j)"
          with j len have "j \<noteq> ?i" "j \<le> unat ?h"
            using m(4) by (simp_all add: act)
          with True z show False by simp
        qed
      qed
      with True z show ?thesis by simp
    next
      case False
      then have "unat ?h \<noteq> ?i"
        by (simp add: word_unat_eq_iff)
      with m(2,3,4) len show ?thesis
        by (intro highest_invI_max [of "unat ?h"]) (simp_all add: act)
    qed
    with p' show ?thesis
      by (intro exI [of _ ?h]) simp
  qed
  then obtain h where "p' = ?p4\<lparr>m_highest_active_index := h\<rparr>" "highest_inv us' h"
    by blast
  with us len idx' act show ?thesis
    by (simp add: indexed_inv_def)
qed

lemma indexed_inv_deactivate:
  assumes "indexed_inv p" "IndexedObjectPool_active p index = Inr True"
    "IndexedObjectPool_deactivate index p = Inr p'"
  shows "indexed_inv p'"
  using indexed_deactivate_effect [OF assms] by (rule conjunct1)

lemma find_previous_highest_InrD:
  "find_previous_highest i p = Inr p' \<Longrightarrow> \<exists>h. p' = p\<lparr>m_highest_active_index := h\<rparr>"
proof (induction i p rule: find_previous_highest.induct)
  case (1 i p)
  show ?case
  proof (cases "i \<noteq> - 1")
    case False
    with 1(2) show ?thesis
      by (auto simp: find_previous_highest.simps [of i])
  next
    case True
    with 1(2) obtain u where u: "read_unit p (unat i) = Inr u"
      by (auto simp: find_previous_highest.simps [of i] split: sum.splits)
    show ?thesis
    proof (cases "m_active u")
      case True
      with 1(2) u \<open>i \<noteq> - 1\<close> show ?thesis
        by (auto simp: find_previous_highest.simps [of i])
    next
      case False
      with 1(2) u \<open>i \<noteq> - 1\<close> have "find_previous_highest (i - 1) p = Inr p'"
        by (simp add: find_previous_highest.simps [of i])
      from 1(1) [OF \<open>i \<noteq> - 1\<close> u False this] show ?thesis .
    qed
  qed
qed

lemma indexed_inv_run:
  "indexed_inv p \<Longrightarrow> IndexedObjectPool_legal cs p \<Longrightarrow> IndexedObjectPool_run cs p = Inr p' \<Longrightarrow>
   indexed_inv p'"
proof (induction cs arbitrary: p)
  case Nil
  then show ?case by simp
next
  case (Cons c cs)
  from Cons.prems(3) obtain p1 where p1: "IndexedObjectPool_step c p = Inr p1"
    "IndexedObjectPool_run cs p1 = Inr p'"
    by (auto split: sum.splits)
  have "indexed_inv p1"
  proof (cases c)
    case Activate
    with p1(1) obtain q where "IndexedObjectPool_activate p = Inr (p1, q)"
      by (auto simp: IndexedObjectPool_step_def split: sum.splits)
    from indexed_inv_activate [OF Cons.prems(1) this] show ?thesis .
  next
    case (Deactivate i)
    with Cons.prems(2) p1(1) have "IndexedObjectPool_active p i = Inr True"
      "IndexedObjectPool_deactivate i p = Inr p1"
      by (simp_all add: IndexedObjectPool_step_def)
    from indexed_inv_deactivate [OF Cons.prems(1) this] show ?thesis .
  next
    case Clear
    with p1(1) have "IndexedObjectPool_clear p = Inr p1"
      by (simp add: IndexedObjectPool_step_def)
    from indexed_inv_clear [OF Cons.prems(1) this] show ?thesis .
  qed
  moreover from Cons.prems(2) p1(1) have "IndexedObjectPool_legal cs p1"
    by simp
  ultimately show ?case
    using p1(2) by (rule Cons.IH)
qed

subsection \<open>The storage of a pool in use\<close>

lemma storage_okD:
  assumes "storage_ok p"
  obtains us where "m_pool p = Some us" "length us = unat (m_capacity p)" "0 < m_capacity p"
  using assms by (auto simp: storage_ok_def)

lemma pool_wf_storage_ok: "pool_wf p \<Longrightarrow> storage_ok p"
  by (auto simp: pool_wf_def storage_ok_def)

lemma ObjectPool_storage_ok:
  assumes "ObjectPool_ctor mem d capacity = Inr p0" "ObjectPool_run cs p0 = Inr p"
  shows "storage_ok p"
  using pool_wf_reachable [OF assms] by (rule pool_wf_storage_ok)

lemma storage_ok_indexed_ctor:
  assumes "IndexedObjectPool_ctor mem d capacity = Inr p"
  shows "storage_ok p"
  using assms IndexedObjectPool_ctor_InrD [OF assms] IndexedObjectPool_ctor_mem [OF assms]
  by (auto simp: IndexedObjectPool_ctor_ok storage_ok_def simp del: replicate.simps)

lemma storage_ok_indexed_clear:
  assumes "storage_ok p" "IndexedObjectPool_clear p = Inr p'"
  shows "storage_ok p'"
proof -
  from assms(1) obtain us where us: "m_pool p = Some us" "length us = unat (m_capacity p)"
    "0 < m_capacity p"
    by (rule storage_okD)
  with assms(2) show ?thesis
    by (auto simp: IndexedObjectPool_clear_ok [OF us] storage_ok_def)
qed

lemma storage_ok_indexed_activate:
  assumes "storage_ok p" "IndexedObjectPool_activate p = Inr (p', q)"
  shows "storage_ok p'"
proof -
  from assms(1) obtain us where us: "m_pool p = Some us" "length us = unat (m_capacity p)"
    "0 < m_capacity p"
    by (rule storage_okD)
  from IndexedObjectPool_activate_InrD [OF assms(2)] show ?thesis
  proof
    assume "m_first_available p = nullptr \<and> p' = p \<and> q = nullptr"
    with assms(1) show ?thesis by simp
  next
    assume "\<exists>us k. m_pool p = Some us \<and> m_first_available p = UnitPtr k \<and> k < length us"
    with us(1) obtain k where k: "m_first_available p = UnitPtr k" "k < length us"
      by auto
    with assms(2) us show ?thesis
      by (auto simp: IndexedObjectPool_activate_Some [OF us(1) k] storage_ok_def)
  qed
qed

text \<open>A call of \<open>deactivate\<close> with an index in range that completes, on any pool in use.\<close>

lemma indexed_deactivate_completed:
  assumes "storage_ok p" "index < m_capacity p" "IndexedObjectPool_deactivate index p = Inr p'"
  shows "\<exists>us us' q h. m_pool p = Some us \<and> unat index < length us \<and>
           next_erased us' = next_erased (us[unat index := (us ! unat index)\<lparr>m_active := False\<rparr>]) \<and>
           (q = UnitPtr (unat index) \<or>
            (\<exists>k. k \<noteq> unat index \<and> k < length us \<and> m_first_available p = UnitPtr k \<and>
                 q = UnitPtr k \<and> m_next (us' ! k) = UnitPtr (unat index))) \<and>
           p' = p\<lparr>m_first_available := q, m_pool := Some us',
                   m_active_count := m_active_count p - 1, m_highest_active_index := h\<rparr>"
proof -
  from assms(1) obtain us where us: "m_pool p = Some us" "length us = unat (m_capacity p)"
    "0 < m_capacity p"
    by (rule storage_okD)
  let ?i = "unat index"
  from assms(2) us(2) have i: "?i < length us"
    by (simp add: word_less_nat_alt)
  from IndexedObjectPool_deactivate_InrD [OF assms(3,2) us(1) i] obtain us' fa' where
    er: "next_erased us' = next_erased (us[?i := (us ! ?i)\<lparr>m_active := False\<rparr>])"
    and link: "fa' = UnitPtr ?i \<or>
            (\<exists>h. h \<noteq> ?i \<and> h < length us \<and> m_first_available p = UnitPtr h \<and>
                 fa' = UnitPtr h \<and> m_next (us' ! h) = UnitPtr ?i)"
    and res: "if m_highest_active_index p = index \<and> index \<noteq> 0
            then find_previous_highest (index - 1)
                   (p\<lparr>m_first_available := fa', m_pool := Some us',
                      m_active_count := m_active_count p - 1\<rparr>) = Inr p'
            else p' = p\<lparr>m_first_available := fa', m_pool := Some us',
                        m_active_count := m_active_count p - 1\<rparr>"
    by blast
  let ?p4 = "p\<lparr>m_first_available := fa', m_pool := Some us',
               m_active_count := m_active_count p - 1\<rparr>"
  have "\<exists>h. p' = ?p4\<lparr>m_highest_active_index := h\<rparr>"
  proof (cases "m_highest_active_index p = index \<and> index \<noteq> 0")
    case True
    with res have "find_previous_highest (index - 1) ?p4 = Inr p'" by simp
    then show ?thesis by (rule find_previous_highest_InrD)
  next
    case False
    with res have "p' = ?p4\<lparr>m_highest_active_index := m_highest_active_index p\<rparr>" by simp
    then show ?thesis by (rule exI)
  qed
  then obtain h where h: "p' = ?p4\<lparr>m_highest_active_index := h\<rparr>" by (rule exE)
  show ?thesis
    by (intro exI [of _ us] exI [of _ us'] exI [of _ fa'] exI [of _ h] conjI)
       (rule us(1) i er link h)+
qed

lemma storage_ok_indexed_deactivate:
  assumes "storage_ok p" "IndexedObjectPool_deactivate index p = Inr p'"
  shows "storage_ok p'"
proof (cases "index < m_capacity p")
  case False
  with assms show ?thesis
    by (simp add: IndexedObjectPool_deactivate_def)
next
  case True
  from indexed_deactivate_completed [OF assms(1) True assms(2)] obtain us us' q h where
    a: "m_pool p = Some us"
    "next_erased us' = next_erased (us[unat index := (us ! unat index)\<lparr>m_active := False\<rparr>])"
    "p' = p\<lparr>m_first_available := q, m_pool := Some us',
            m_active_count := m_active_count p - 1, m_highest_active_index := h\<rparr>"
    by blast
  from next_erased_length [OF a(2)] have "length us' = length us" by simp
  moreover from a(3) have "m_pool p' = Some us'" "m_capacity p' = m_capacity p"
    by simp_all
  ultimately show ?thesis
    using assms(1) a(1) by (auto simp: storage_ok_def)
qed

lemma storage_ok_indexed_run:
  "storage_ok p \<Longrightarrow> IndexedObjectPool_run cs p = Inr p' \<Longrightarrow> storage_ok p'"
proof (induction cs arbitrary: p)
  case Nil
  then show ?case by simp
next
  case (Cons c cs)
  from Cons.prems(2) obtain p1 where p1: "IndexedObjectPool_step c p = Inr p1"
    "IndexedObjectPool_run cs p1 = Inr p'"
    by (auto split: sum.splits)
  have "storage_ok p1"
  proof (cases c)
    case Activate
    with p1(1) obtain q where "IndexedObjectPool_activate p = Inr (p1, q)"
      by (auto simp: IndexedObjectPool_step_def split: sum.splits)
    from storage_ok_indexed_activate [OF Cons.prems(1) this] show ?thesis .
  next
    case (Deactivate i)
    with p1(1) have "IndexedObjectPool_deactivate i p = Inr p1"
      by (simp add: IndexedObjectPool_step_def)
    from storage_ok_indexed_deactivate [OF Cons.prems(1) this] show ?thesis .
  next
    case Clear
    with p1(1) have "IndexedObjectPool_clear p = Inr p1"
      by (simp add: IndexedObjectPool_step_def)
    from storage_ok_indexed_clear [OF Cons.prems(1) this] show ?thesis .
  qed
  then show ?case
    using p1(2) by (rule Cons.IH)
qed

lemma IndexedObjectPool_storage_ok:
  assumes "IndexedObjectPool_ctor mem d capacity = Inr p0" "IndexedObjectPool_run cs p0 = Inr p"
  shows "storage_ok p"
  using storage_ok_indexed_run [OF storage_ok_indexed_ctor [OF assms(1)] assms(2)] .

subsection \<open>The free list of IndexedObjectPool\<close>

text \<open>The array and the head of the free list after a call of \<open>deactivate\<close> that completes.\<close>

lemma IndexedObjectPool_deactivate_exact:
  assumes "IndexedObjectPool_deactivate index p = Inr p'" "index < m_capacity p"
    "m_pool p = Some us" "unat index < length us"
  shows "\<exists>us' fa' h.
           p' = p\<lparr>m_first_available := fa', m_pool := Some us',
                   m_active_count := m_active_count p - 1, m_highest_active_index := h\<rparr> \<and>
           ((\<not> ptr_less (m_first_available p) (m_next (us ! unat index)) \<and>
             fa' = UnitPtr (unat index) \<and>
             us' = us[unat index :=
                      (us ! unat index)\<lparr>m_active := False, m_next := m_first_available p\<rparr>]) \<or>
            (\<exists>k. ptr_less (m_first_available p) (m_next (us ! unat index)) \<and>
                 m_first_available p = UnitPtr k \<and> k < length us \<and> fa' = UnitPtr k \<and>
                 us' = (us[unat index := (us ! unat index)\<lparr>m_active := False\<rparr>,
                           k := (us[unat index := (us ! unat index)\<lparr>m_active := False\<rparr>] ! k)
                                  \<lparr>m_next := UnitPtr (unat index)\<rparr>])
                       [unat index :=
                          (us[unat index := (us ! unat index)\<lparr>m_active := False\<rparr>,
                              k := (us[unat index := (us ! unat index)\<lparr>m_active := False\<rparr>] ! k)
                                     \<lparr>m_next := UnitPtr (unat index)\<rparr>] ! unat index)
                          \<lparr>m_next := m_next (us[unat index :=
                                       (us ! unat index)\<lparr>m_active := False\<rparr>] ! k)\<rparr>]))"
proof -
  let ?i = "unat index"
  let ?us1 = "us[?i := (us ! ?i)\<lparr>m_active := False\<rparr>]"
  let ?fa = "m_first_available p"
  let ?tail = "\<lambda>p3. (let p4 = p3\<lparr>m_active_count := m_active_count p3 - 1\<rparr> in
              if m_highest_active_index p4 = index then
                if index = 0 then Inr p4
                else find_previous_highest (m_highest_active_index p4 - 1) p4
              else Inr p4)"
  have tail: "\<exists>h. p' = p\<lparr>m_first_available := q, m_pool := Some vs,
                   m_active_count := m_active_count p - 1, m_highest_active_index := h\<rparr>"
    if "?tail p3 = Inr p'" "p3 = p\<lparr>m_first_available := q, m_pool := Some vs\<rparr>" for q vs p3
  proof -
    let ?p4 = "p\<lparr>m_first_available := q, m_pool := Some vs,
                 m_active_count := m_active_count p - 1\<rparr>"
    have "\<exists>h. p' = ?p4\<lparr>m_highest_active_index := h\<rparr>"
    proof (cases "m_highest_active_index p = index \<and> index \<noteq> 0")
      case True
      with that have "find_previous_highest (index - 1) ?p4 = Inr p'"
        by (simp add: Let_def)
      then show ?thesis by (rule find_previous_highest_InrD)
    next
      case False
      with that have "p' = ?p4\<lparr>m_highest_active_index := m_highest_active_index p\<rparr>"
        by (auto simp: Let_def split: if_splits)
      then show ?thesis by (rule exI)
    qed
    then show ?thesis by simp
  qed
  show ?thesis
  proof (cases "ptr_less ?fa (m_next (us ! ?i))")
    case False
    let ?us3 = "us[?i := (us ! ?i)\<lparr>m_active := False, m_next := ?fa\<rparr>]"
    have "?tail (p\<lparr>m_pool := Some ?us3, m_first_available := UnitPtr ?i\<rparr>) = Inr p'"
      using assms False
      by (auto simp: IndexedObjectPool_deactivate_def write_unit_def read_unit_def Let_def
          split: if_splits)
    from tail [OF this, of ?us3 "UnitPtr ?i"] obtain h where
      "p' = p\<lparr>m_first_available := UnitPtr ?i, m_pool := Some ?us3,
               m_active_count := m_active_count p - 1, m_highest_active_index := h\<rparr>"
      by auto
    with False show ?thesis
      by (intro exI [of _ ?us3] exI [of _ "UnitPtr ?i"] exI [of _ h]) simp
  next
    case True
    then obtain k where k: "?fa = UnitPtr k" "k < length us"
      using assms
      by (cases ?fa)
         (auto simp: IndexedObjectPool_deactivate_def write_unit_def read_unit_def deref_def
               split: if_splits)
    let ?us2 = "?us1[k := (?us1 ! k)\<lparr>m_next := UnitPtr ?i\<rparr>]"
    let ?us3 = "?us2[?i := (?us2 ! ?i)\<lparr>m_next := m_next (?us1 ! k)\<rparr>]"
    have "\<exists>vs. ?tail (p\<lparr>m_pool := Some vs\<rparr>) = Inr p' \<and> vs = ?us3"
      using assms True k
      by (auto simp: IndexedObjectPool_deactivate_def write_unit_def read_unit_def deref_def
          assign_through_def Let_def split: if_splits)
    then have "?tail (p\<lparr>m_pool := Some ?us3\<rparr>) = Inr p'"
      by auto
    from tail [OF this, of ?us3 ?fa] obtain h where
      "p' = p\<lparr>m_first_available := ?fa, m_pool := Some ?us3,
               m_active_count := m_active_count p - 1, m_highest_active_index := h\<rparr>"
      by auto
    with True k show ?thesis
      by (intro exI [of _ ?us3] exI [of _ "UnitPtr k"] exI [of _ h]) simp
  qed
qed

lemma free_list_inv_indexed_ctor:
  assumes "IndexedObjectPool_ctor mem d capacity = Inr p"
  shows "free_list_inv p"
proof -
  let ?us = "replicate (unat capacity)
    \<lparr>m_active = False, m_next = nullptr, m_object = d, m_index = 0\<rparr>"
  from assms have c: "0 < capacity"
    by (rule IndexedObjectPool_ctor_InrD)
  then have n: "0 < length ?us"
    by (simp add: word_less_nat_alt)
  have "is_free_list (indexed_cleared ?us) (UnitPtr 0) [0..<length ?us]"
    by (rule is_free_list_indexed_cleared [OF n refl])
  moreover from assms c IndexedObjectPool_ctor_mem [OF assms]
  have "p = \<lparr>m_first_available = UnitPtr 0,
      m_pool = Some (indexed_cleared ?us), m_active_count = 0, m_capacity = capacity,
      m_highest_active_index = 0\<rparr>"
    by (simp add: IndexedObjectPool_ctor_ok)
  ultimately show ?thesis
    using c n unfolding free_list_inv_def
    by (intro exI [of _ "indexed_cleared ?us"] exI [of _ "[0..<length ?us]"])
       (simp add: nth_indexed_cleared del: replicate.simps)
qed

lemma free_list_inv_indexed_clear:
  assumes "free_list_inv p" "IndexedObjectPool_clear p = Inr p'"
  shows "free_list_inv p'"
proof -
  from assms(1) obtain us where us: "m_pool p = Some us" "length us = unat (m_capacity p)"
    "0 < m_capacity p"
    by (auto simp: free_list_inv_def)
  then have n: "0 < length us"
    by (simp add: word_less_nat_alt)
  have "is_free_list (indexed_cleared us) (UnitPtr 0) [0..<length us]"
    by (rule is_free_list_indexed_cleared [OF n refl])
  moreover from assms(2) have "p' = p\<lparr>m_first_available := UnitPtr 0,
      m_pool := Some (indexed_cleared us), m_active_count := 0, m_highest_active_index := 0\<rparr>"
    by (simp add: IndexedObjectPool_clear_ok [OF us])
  ultimately show ?thesis
    using us n unfolding free_list_inv_def
    by (intro exI [of _ "indexed_cleared us"] exI [of _ "[0..<length us]"])
       (simp add: nth_indexed_cleared)
qed

lemma free_list_inv_indexed_activate:
  assumes "free_list_inv p" "IndexedObjectPool_activate p = Inr (p', q)"
  shows "free_list_inv p'"
proof -
  from assms(1) obtain us fl where us: "m_pool p = Some us" "length us = unat (m_capacity p)"
    "0 < m_capacity p" and fl: "is_free_list us (m_first_available p) fl" "distinct fl"
    "\<forall>k\<in>set fl. \<not> m_active (us ! k)" "unat (m_active_count p) + length fl = length us"
    by (auto simp: free_list_inv_def)
  show ?thesis
  proof (cases fl)
    case Nil
    with fl(1) assms show ?thesis
      by (simp add: IndexedObjectPool_activate_null)
  next
    case (Cons k ks)
    with fl have k: "m_first_available p = UnitPtr k" "k < length us"
      and ks: "is_free_list us (m_next (us ! k)) ks" "k \<notin> set ks" "distinct ks"
      by simp_all
    let ?us = "us[k := (us ! k)\<lparr>m_active := True\<rparr>]"
    from assms(2) obtain h where p': "p' = p\<lparr>m_first_available := m_next (us ! k),
        m_pool := Some ?us, m_active_count := m_active_count p + 1,
        m_highest_active_index := h\<rparr>"
      by (auto simp: IndexedObjectPool_activate_Some [OF us(1) k])
    have "unat (m_active_count p) < unat (m_capacity p)"
      using fl(4) us(2) Cons by simp
    then have cnt: "unat (m_active_count p + 1) = unat (m_active_count p) + 1"
      by (intro unat_succ_below [of _ "m_capacity p"]) (simp add: word_less_nat_alt)
    have "is_free_list ?us (m_next (us ! k)) ks"
      using ks by (simp add: is_free_list_update)
    moreover have "\<forall>j\<in>set ks. \<not> m_active (?us ! j)"
      using fl(3) ks(2) Cons by (metis list.set_intros(2) nth_list_update_neq)
    ultimately show ?thesis
      using us fl(4) ks(3) cnt Cons unfolding free_list_inv_def p'
      by (intro exI [of _ ?us] exI [of _ ks]) simp
  qed
qed

lemma free_list_inv_indexed_deactivate:
  assumes "free_list_inv p" "IndexedObjectPool_active p index = Inr True"
    "IndexedObjectPool_deactivate index p = Inr p'"
  shows "free_list_inv p'"
proof -
  from assms(1) obtain us fl where us: "m_pool p = Some us" "length us = unat (m_capacity p)"
    "0 < m_capacity p" and fl: "is_free_list us (m_first_available p) fl" "distinct fl"
    "\<forall>k\<in>set fl. \<not> m_active (us ! k)" "unat (m_active_count p) + length fl = length us"
    by (auto simp: free_list_inv_def)
  let ?i = "unat index"
  let ?fa = "m_first_available p"
  from assms(2) us(1) have i: "?i < length us" "m_active (us ! ?i)"
    by (auto dest: IndexedObjectPool_active_InrD)
  then have lt: "index < m_capacity p"
    using us(2) by (simp add: word_less_nat_alt)
  have notin: "?i \<notin> set fl"
    using fl(3) i(2) by auto
  have "length fl < length us"
    by (rule distinct_length_less [OF fl(2) is_free_list_bound [OF fl(1)] i(1) notin])
  then have "m_active_count p \<noteq> 0"
    using fl(4) by auto
  then have cnt: "unat (m_active_count p - 1) = unat (m_active_count p) - 1"
    "0 < unat (m_active_count p)"
    by (simp_all add: unat_minus_one unat_gt_0)
  let ?us1 = "us[?i := (us ! ?i)\<lparr>m_active := False\<rparr>]"
  from IndexedObjectPool_deactivate_exact [OF assms(3) lt us(1) i(1)] obtain us' fa' h where
    p': "p' = p\<lparr>m_first_available := fa', m_pool := Some us',
                   m_active_count := m_active_count p - 1, m_highest_active_index := h\<rparr>"
    and c: "(\<not> ptr_less ?fa (m_next (us ! ?i)) \<and> fa' = UnitPtr ?i \<and>
             us' = us[?i := (us ! ?i)\<lparr>m_active := False, m_next := ?fa\<rparr>]) \<or>
            (\<exists>k. ptr_less ?fa (m_next (us ! ?i)) \<and> ?fa = UnitPtr k \<and> k < length us \<and>
                 fa' = UnitPtr k \<and>
                 us' = (?us1[k := (?us1 ! k)\<lparr>m_next := UnitPtr ?i\<rparr>])
                       [?i := (?us1[k := (?us1 ! k)\<lparr>m_next := UnitPtr ?i\<rparr>] ! ?i)
                          \<lparr>m_next := m_next (?us1 ! k)\<rparr>])"
    by blast
  have "\<exists>fl'. is_free_list us' fa' fl' \<and> distinct fl' \<and> (\<forall>j\<in>set fl'. \<not> m_active (us' ! j)) \<and>
          length fl' = Suc (length fl) \<and> length us' = length us"
    using c
  proof (elim disjE exE conjE)
    assume a: "fa' = UnitPtr ?i" "us' = us[?i := (us ! ?i)\<lparr>m_active := False, m_next := ?fa\<rparr>]"
    have "is_free_list us' ?fa fl"
      unfolding a using fl(1) notin by (simp add: is_free_list_update)
    moreover have "\<forall>j\<in>set fl. \<not> m_active (us' ! j)"
      unfolding a using fl(3) notin by (metis nth_list_update_neq)
    ultimately show ?thesis
      using a fl(2) notin i(1)
      by (intro exI [of _ "?i # fl"]) simp
  next
    fix k
    assume a: "?fa = UnitPtr k" "k < length us" "fa' = UnitPtr k"
      "us' = (?us1[k := (?us1 ! k)\<lparr>m_next := UnitPtr ?i\<rparr>])
                       [?i := (?us1[k := (?us1 ! k)\<lparr>m_next := UnitPtr ?i\<rparr>] ! ?i)
                          \<lparr>m_next := m_next (?us1 ! k)\<rparr>]"
    from fl(1) a(1) obtain rest where rest: "fl = k # rest"
      "is_free_list us (m_next (us ! k)) rest"
      by (cases fl) auto
    with fl(2,3) notin have ki: "k \<noteq> ?i" "k \<notin> set rest" "?i \<notin> set rest" "distinct rest"
      "\<not> m_active (us ! k)"
      by auto
    have nk: "m_next (us' ! k) = UnitPtr ?i" "\<not> m_active (us' ! k)"
      unfolding a(4) using ki(1,5) a(2) i(1) by simp_all
    have ni: "m_next (us' ! ?i) = m_next (us ! k)" "\<not> m_active (us' ! ?i)"
      unfolding a(4) using ki(1) a(2) i(1) by simp_all
    have "is_free_list us' (m_next (us ! k)) rest"
      unfolding a(4) using rest(2) ki(2,3) by (simp add: is_free_list_update)
    moreover have "\<forall>j\<in>set rest. \<not> m_active (us' ! j)"
    proof
      fix j assume j: "j \<in> set rest"
      with ki(2,3) have "j \<noteq> k" "j \<noteq> ?i" by auto
      then have "us' ! j = us ! j"
        unfolding a(4) by simp
      with fl(3) rest(1) j show "\<not> m_active (us' ! j)" by simp
    qed
    moreover have "length us' = length us"
      unfolding a(4) by simp
    ultimately show ?thesis
      using a(2,3) i(1) nk ni ki rest(1)
      by (intro exI [of _ "k # ?i # rest"]) simp
  qed
  then obtain fl' where "is_free_list us' fa' fl'" "distinct fl'"
    "\<forall>j\<in>set fl'. \<not> m_active (us' ! j)" "length fl' = Suc (length fl)" "length us' = length us"
    by blast
  then show ?thesis
    using us fl(4) cnt unfolding free_list_inv_def p'
    by (intro exI [of _ us'] exI [of _ fl']) simp
qed

lemma free_list_inv_indexed_run:
  "free_list_inv p \<Longrightarrow> IndexedObjectPool_legal cs p \<Longrightarrow> IndexedObjectPool_run cs p = Inr p' \<Longrightarrow>
   free_list_inv p'"
proof (induction cs arbitrary: p)
  case Nil
  then show ?case by simp
next
  case (Cons c cs)
  from Cons.prems(3) obtain p1 where p1: "IndexedObjectPool_step c p = Inr p1"
    "IndexedObjectPool_run cs p1 = Inr p'"
    by (auto split: sum.splits)
  have "free_list_inv p1"
  proof (cases c)
    case Activate
    with p1(1) obtain q where "IndexedObjectPool_activate p = Inr (p1, q)"
      by (auto simp: IndexedObjectPool_step_def split: sum.splits)
    from free_list_inv_indexed_activate [OF Cons.prems(1) this] show ?thesis .
  next
    case (Deactivate i)
    with Cons.prems(2) p1(1) have "IndexedObjectPool_active p i = Inr True"
      "IndexedObjectPool_deactivate i p = Inr p1"
      by (simp_all add: IndexedObjectPool_step_def)
    from free_list_inv_indexed_deactivate [OF Cons.prems(1) this] show ?thesis .
  next
    case Clear
    with p1(1) have "IndexedObjectPool_clear p = Inr p1"
      by (simp add: IndexedObjectPool_step_def)
    from free_list_inv_indexed_clear [OF Cons.prems(1) this] show ?thesis .
  qed
  moreover from Cons.prems(2) p1(1) have "IndexedObjectPool_legal cs p1"
    by simp
  ultimately show ?case
    using p1(2) by (rule Cons.IH)
qed

text \<open>
  The free list of the indexed pool obeys the same invariant in every state reached by calls
  that complete, every \<open>deactivate\<close> given the index of an active unit.
\<close>

lemma IndexedObjectPool_free_list_cardinality:
  assumes "IndexedObjectPool_ctor mem d capacity = Inr p0" and "IndexedObjectPool_legal cs p0"
    and "IndexedObjectPool_run cs p0 = Inr p"
  shows "\<exists>us fl. m_pool p = Some us \<and> is_free_list us (m_first_available p) fl \<and> distinct fl \<and>
           (\<forall>k\<in>set fl. k < length us \<and> \<not> m_active (us ! k)) \<and>
           length fl = unat (IndexedObjectPool_capacity p) - unat (IndexedObjectPool_activeCount p) \<and>
           IndexedObjectPool_activeCount p \<le> IndexedObjectPool_capacity p"
proof -
  from free_list_inv_indexed_run [OF free_list_inv_indexed_ctor [OF assms(1)] assms(2,3)]
  obtain us fl where us: "m_pool p = Some us" "length us = unat (m_capacity p)"
    and fl: "is_free_list us (m_first_available p) fl" "distinct fl"
    "\<forall>k\<in>set fl. \<not> m_active (us ! k)" "unat (m_active_count p) + length fl = length us"
    by (auto simp: free_list_inv_def)
  have "m_active_count p \<le> m_capacity p"
    using fl(4) us(2) by (simp add: word_le_nat_alt)
  moreover have "length fl = unat (m_capacity p) - unat (m_active_count p)"
    using fl(4) us(2) by simp
  ultimately show ?thesis
    using us(1) fl(1,2,3) is_free_list_bound [OF fl(1)]
    unfolding IndexedObjectPool_capacity_def IndexedObjectPool_activeCount_def
    by (intro exI [of _ us] exI [of _ fl]) simp
qed

subsection \<open>Calls and runs of the indexed pool that complete\<close>

lemma highest_inv_unat:
  "highest_inv us h \<Longrightarrow>
   unat h = (if active_indices us = [] then 0 else Max (set (active_indices us)))"
  by (auto simp: highest_inv_def)

lemma indexed_inv_reachable:
  assumes "IndexedObjectPool_ctor mem d capacity = Inr p0" "IndexedObjectPool_legal cs p0"
    "IndexedObjectPool_run cs p0 = Inr p"
  shows "indexed_inv p"
  using indexed_inv_run [OF indexed_inv_ctor [OF assms(1)] assms(2,3)] .

text \<open>
  In a state an indexed pool reaches by calls that complete, every \<open>deactivate\<close> given the
  index of a unit active at that moment, \<open>highestActiveIndex()\<close> is 0 when no unit is active
  and the largest index of an active unit otherwise. When the unit at the highest active
  index \<open>index > 0\<close> is deactivated and the call completes, the new value is the largest
  index below \<open>index\<close> of a unit still active, or 0 when there is none.
\<close>

lemma highest_active_index_completed:
  assumes "IndexedObjectPool_ctor mem d capacity = Inr p0" and "IndexedObjectPool_legal cs p0"
    and "IndexedObjectPool_run cs p0 = Inr p"
  shows "\<exists>us. m_pool p = Some us \<and>
           unat (highestActiveIndex p) =
             (if active_indices us = [] then 0 else Max (set (active_indices us))) \<and>
           (\<forall>index p'. highestActiveIndex p = index \<and> 0 < index \<and>
                IndexedObjectPool_active p index = Inr True \<and>
                IndexedObjectPool_deactivate index p = Inr p' \<longrightarrow>
              unat (highestActiveIndex p') =
                (if filter (\<lambda>j. m_active (us ! j)) [0..<unat index] = [] then 0
                 else Max (set (filter (\<lambda>j. m_active (us ! j)) [0..<unat index]))))"
proof -
  have inv: "indexed_inv p"
    using assms by (rule indexed_inv_reachable)
  then obtain us where us: "m_pool p = Some us"
    and hi: "highest_inv us (m_highest_active_index p)"
    by (auto simp: indexed_inv_def)
  have "unat (highestActiveIndex p') =
          (if filter (\<lambda>j. m_active (us ! j)) [0..<unat index] = [] then 0
           else Max (set (filter (\<lambda>j. m_active (us ! j)) [0..<unat index])))"
    if a: "highestActiveIndex p = index" "IndexedObjectPool_active p index = Inr True"
      "IndexedObjectPool_deactivate index p = Inr p'" for index p'
  proof -
    let ?i = "unat index"
    from a(2) us have i: "?i < length us" "m_active (us ! ?i)"
      by (auto dest: IndexedObjectPool_active_InrD)
    from indexed_deactivate_effect [OF inv a(2,3)] us obtain us' where
      inv': "indexed_inv p'" and us': "m_pool p' = Some us'" "length us' = length us"
      and act: "\<forall>j<length us. m_active (us' ! j) = (j \<noteq> ?i \<and> m_active (us ! j))"
      by auto
    from inv' us'(1) have "highest_inv us' (m_highest_active_index p')"
      by (auto simp: indexed_inv_def)
    then have h': "unat (highestActiveIndex p') =
        (if active_indices us' = [] then 0 else Max (set (active_indices us')))"
      unfolding highestActiveIndex_def by (rule highest_inv_unat)
    have top: "\<And>j. j < length us \<Longrightarrow> m_active (us ! j) \<Longrightarrow> j \<le> ?i"
      using highest_invD(1) [OF hi] a(1) by (simp add: highestActiveIndex_def)
    have "set (active_indices us') = set (filter (\<lambda>j. m_active (us ! j)) [0..<?i])"
    proof (intro set_eqI iffI)
      fix j assume "j \<in> set (active_indices us')"
      then have j: "j < length us" "j \<noteq> ?i" "m_active (us ! j)"
        using act us'(2) by (auto simp: set_active_indices)
      with top [of j] show "j \<in> set (filter (\<lambda>j. m_active (us ! j)) [0..<?i])"
        by simp
    next
      fix j assume "j \<in> set (filter (\<lambda>j. m_active (us ! j)) [0..<?i])"
      with i(1) act us'(2) show "j \<in> set (active_indices us')"
        by (simp add: set_active_indices)
    qed
    moreover from this have "(active_indices us' = []) =
        (filter (\<lambda>j. m_active (us ! j)) [0..<?i] = [])"
      by (metis set_empty)
    ultimately show ?thesis
      using h' by simp
  qed
  moreover have "unat (highestActiveIndex p) =
      (if active_indices us = [] then 0 else Max (set (active_indices us)))"
    unfolding highestActiveIndex_def using hi by (rule highest_inv_unat)
  ultimately show ?thesis
    using us by blast
qed

lemma is_free_list_self_loop:
  "k < length us \<Longrightarrow> m_next (us ! k) = UnitPtr k \<Longrightarrow> \<not> is_free_list us (UnitPtr k) fl"
  by (induction fl) auto

text \<open>
  \<open>deactivate(index)\<close> does not look at \<open>active_\<close> of the unit. In the basic pool, for every
  index in range, it marks the unit inactive, makes it the head of the free list in front of
  the old head, and decrements \<open>active_count_\<close>, whatever the unit was. In the indexed pool
  a call with an index in range that completes has marked the unit inactive, left the other
  units' activity alone, decremented \<open>active_count_\<close>, and linked the unit at the head of
  the free list or right behind the head. A second \<open>deactivate\<close> of the same index makes the
  free list cyclic (no finite list of units follows the \<open>next_\<close> pointers from
  \<open>first_available_\<close> to null) and takes \<open>active_count_\<close> from 0 to \<open>2^64 - 1\<close>: in the basic
  pool of capacity 2 after \<open>activate\<close>, \<open>deactivate(0)\<close>, \<open>deactivate(0)\<close>, and in the indexed
  pool of capacity 3 after two \<open>activate\<close>, \<open>deactivate(0)\<close>, \<open>deactivate(1)\<close>,
  \<open>deactivate(1)\<close>.
\<close>

lemma deactivate_effect:
  "(ObjectPool_ctor mem d capacity = Inr p0 \<and> ObjectPool_run cs p0 = Inr p \<and>
    index < ObjectPool_capacity p \<longrightarrow>
      (\<exists>us. m_pool p = Some us \<and> unat index < length us \<and>
         ObjectPool_deactivate index p =
           Inr (p\<lparr>m_first_available := UnitPtr (unat index),
                  m_pool := Some (us[unat index :=
                     (us ! unat index)\<lparr>m_active := False, m_next := m_first_available p\<rparr>]),
                  m_active_count := m_active_count p - 1\<rparr>))) \<and>
   (IndexedObjectPool_ctor mem' d' capacity' = Inr q0 \<and> IndexedObjectPool_run cs' q0 = Inr q \<and>
    index' < IndexedObjectPool_capacity q \<and> IndexedObjectPool_deactivate index' q = Inr q' \<longrightarrow>
      (\<exists>us us'. m_pool q = Some us \<and> m_pool q' = Some us' \<and> unat index' < length us \<and>
         length us' = length us \<and> \<not> m_active (us' ! unat index') \<and>
         (\<forall>j<length us. j \<noteq> unat index' \<longrightarrow> m_active (us' ! j) = m_active (us ! j)) \<and>
         m_active_count q' = m_active_count q - 1 \<and>
         (m_first_available q' = UnitPtr (unat index') \<or>
          (\<exists>k. k \<noteq> unat index' \<and> m_first_available q' = UnitPtr k \<and>
               m_next (us' ! k) = UnitPtr (unat index'))))) \<and>
   ObjectPool_run [Activate, Deactivate 0, Deactivate 0]
     \<lparr>m_first_available = UnitPtr 0,
       m_pool = Some [\<lparr>m_active = False, m_next = UnitPtr 1, m_object = ()\<rparr>,
                    \<lparr>m_active = False, m_next = nullptr, m_object = ()\<rparr>],
       m_active_count = 0, m_capacity = 2\<rparr> =
     Inr \<lparr>m_first_available = UnitPtr 0,
       m_pool = Some [\<lparr>m_active = False, m_next = UnitPtr 0, m_object = ()\<rparr>,
                    \<lparr>m_active = False, m_next = nullptr, m_object = ()\<rparr>],
       m_active_count = - 1, m_capacity = 2\<rparr> \<and>
   (\<forall>fl. \<not> is_free_list
     [\<lparr>m_active = False, m_next = UnitPtr 0, m_object = ()\<rparr>,
       \<lparr>m_active = False, m_next = nullptr, m_object = ()\<rparr>] (UnitPtr 0) fl) \<and>
   IndexedObjectPool_run [Activate, Activate, Deactivate 0, Deactivate 1, Deactivate 1]
     \<lparr>m_first_available = UnitPtr 0,
       m_pool = Some [\<lparr>m_active = False, m_next = UnitPtr 1, m_object = (), m_index = 0\<rparr>,
                    \<lparr>m_active = False, m_next = UnitPtr 2, m_object = (), m_index = 1\<rparr>,
                    \<lparr>m_active = False, m_next = nullptr, m_object = (), m_index = 2\<rparr>],
       m_active_count = 0, m_capacity = 3, m_highest_active_index = 0\<rparr> =
     Inr \<lparr>m_first_available = UnitPtr 0,
       m_pool = Some [\<lparr>m_active = False, m_next = UnitPtr 1, m_object = (), m_index = 0\<rparr>,
                    \<lparr>m_active = False, m_next = UnitPtr 1, m_object = (), m_index = 1\<rparr>,
                    \<lparr>m_active = False, m_next = nullptr, m_object = (), m_index = 2\<rparr>],
       m_active_count = - 1, m_capacity = 3, m_highest_active_index = 0\<rparr> \<and>
   (\<forall>fl. \<not> is_free_list
     [\<lparr>m_active = False, m_next = UnitPtr 1, m_object = (), m_index = 0\<rparr>,
       \<lparr>m_active = False, m_next = UnitPtr 1, m_object = (), m_index = 1\<rparr>,
       \<lparr>m_active = False, m_next = nullptr, m_object = (), m_index = 2\<rparr>] (UnitPtr 0) fl) \<and>
   unat (- 1 :: size_t) = 2 ^ 64 - 1"
proof (intro conjI impI allI)
  assume a: "ObjectPool_ctor mem d capacity = Inr p0 \<and> ObjectPool_run cs p0 = Inr p \<and>
    index < ObjectPool_capacity p"
  then have "storage_ok p"
    by (auto intro: ObjectPool_storage_ok)
  then obtain us where us: "m_pool p = Some us" "length us = unat (m_capacity p)"
    by (rule storage_okD)
  from a have lt: "index < m_capacity p"
    by (simp add: ObjectPool_capacity_def)
  with us(2) have i: "unat index < length us"
    by (simp add: word_less_nat_alt)
  from us(1) i ObjectPool_deactivate_Some [OF us(1) lt i]
  show "(\<exists>us. m_pool p = Some us \<and> unat index < length us \<and>
         ObjectPool_deactivate index p =
           Inr (p\<lparr>m_first_available := UnitPtr (unat index),
                  m_pool := Some (us[unat index :=
                     (us ! unat index)\<lparr>m_active := False, m_next := m_first_available p\<rparr>]),
                  m_active_count := m_active_count p - 1\<rparr>))"
    by blast
next
  assume a: "IndexedObjectPool_ctor mem' d' capacity' = Inr q0 \<and>
    IndexedObjectPool_run cs' q0 = Inr q \<and>
    index' < IndexedObjectPool_capacity q \<and> IndexedObjectPool_deactivate index' q = Inr q'"
  then have ok: "storage_ok q"
    by (auto intro: IndexedObjectPool_storage_ok)
  from a have lt: "index' < m_capacity q" and de: "IndexedObjectPool_deactivate index' q = Inr q'"
    by (simp_all add: IndexedObjectPool_capacity_def)
  let ?i = "unat index'"
  from indexed_deactivate_completed [OF ok lt de] obtain us us' fa h where
    us: "m_pool q = Some us" "?i < length us"
    and er: "next_erased us' = next_erased (us[?i := (us ! ?i)\<lparr>m_active := False\<rparr>])"
    and link: "fa = UnitPtr ?i \<or>
            (\<exists>k. k \<noteq> ?i \<and> k < length us \<and> m_first_available q = UnitPtr k \<and>
                 fa = UnitPtr k \<and> m_next (us' ! k) = UnitPtr ?i)"
    and q': "q' = q\<lparr>m_first_available := fa, m_pool := Some us',
                   m_active_count := m_active_count q - 1, m_highest_active_index := h\<rparr>"
    by blast
  have len: "length us' = length us"
    using next_erased_length [OF er] by simp
  have act: "\<And>j. j < length us \<Longrightarrow> m_active (us' ! j) = (j \<noteq> ?i \<and> m_active (us ! j))"
    using next_erased_active [OF er] us(2) by (auto simp: nth_list_update)
  from q' have f: "m_pool q' = Some us'" "m_active_count q' = m_active_count q - 1"
    "m_first_available q' = fa"
    by simp_all
  from link have "m_first_available q' = UnitPtr ?i \<or>
          (\<exists>k. k \<noteq> ?i \<and> m_first_available q' = UnitPtr k \<and> m_next (us' ! k) = UnitPtr ?i)"
    unfolding f(3) by blast
  with us len act f(1,2)
  show "(\<exists>us us'. m_pool q = Some us \<and> m_pool q' = Some us' \<and> unat index' < length us \<and>
         length us' = length us \<and> \<not> m_active (us' ! unat index') \<and>
         (\<forall>j<length us. j \<noteq> unat index' \<longrightarrow> m_active (us' ! j) = m_active (us ! j)) \<and>
         m_active_count q' = m_active_count q - 1 \<and>
         (m_first_available q' = UnitPtr (unat index') \<or>
          (\<exists>k. k \<noteq> unat index' \<and> m_first_available q' = UnitPtr k \<and>
               m_next (us' ! k) = UnitPtr (unat index'))))"
    by (intro exI [of _ us] exI [of _ us']) simp
next
  show "ObjectPool_run [Activate, Deactivate 0, Deactivate 0]
     \<lparr>m_first_available = UnitPtr 0,
       m_pool = Some [\<lparr>m_active = False, m_next = UnitPtr 1, m_object = ()\<rparr>,
                    \<lparr>m_active = False, m_next = nullptr, m_object = ()\<rparr>],
       m_active_count = 0, m_capacity = 2\<rparr> =
     Inr \<lparr>m_first_available = UnitPtr 0,
       m_pool = Some [\<lparr>m_active = False, m_next = UnitPtr 0, m_object = ()\<rparr>,
                    \<lparr>m_active = False, m_next = nullptr, m_object = ()\<rparr>],
       m_active_count = - 1, m_capacity = 2\<rparr>"
    by (simp add: pool_eval)
next
  fix fl
  have "\<not> is_free_list
     [\<lparr>m_active = False, m_next = UnitPtr 0, m_object = ()\<rparr>,
       \<lparr>m_active = False, m_next = nullptr, m_object = ()\<rparr>] (UnitPtr 0) fl"
    by (rule is_free_list_self_loop) simp_all
  then show "\<not> is_free_list
     [\<lparr>m_active = False, m_next = UnitPtr 0, m_object = ()\<rparr>,
       \<lparr>m_active = False, m_next = nullptr, m_object = ()\<rparr>] (UnitPtr 0) fl" .
next
  show "IndexedObjectPool_run [Activate, Activate, Deactivate 0, Deactivate 1, Deactivate 1]
     \<lparr>m_first_available = UnitPtr 0,
       m_pool = Some [\<lparr>m_active = False, m_next = UnitPtr 1, m_object = (), m_index = 0\<rparr>,
                    \<lparr>m_active = False, m_next = UnitPtr 2, m_object = (), m_index = 1\<rparr>,
                    \<lparr>m_active = False, m_next = nullptr, m_object = (), m_index = 2\<rparr>],
       m_active_count = 0, m_capacity = 3, m_highest_active_index = 0\<rparr> =
     Inr \<lparr>m_first_available = UnitPtr 0,
       m_pool = Some [\<lparr>m_active = False, m_next = UnitPtr 1, m_object = (), m_index = 0\<rparr>,
                    \<lparr>m_active = False, m_next = UnitPtr 1, m_object = (), m_index = 1\<rparr>,
                    \<lparr>m_active = False, m_next = nullptr, m_object = (), m_index = 2\<rparr>],
       m_active_count = - 1, m_capacity = 3, m_highest_active_index = 0\<rparr>"
    by (simp add: indexed_pool_eval)
next
  fix fl
  let ?us = "[\<lparr>m_active = False, m_next = UnitPtr 1, m_object = (), m_index = 0\<rparr>,
       \<lparr>m_active = False, m_next = UnitPtr 1, m_object = (), m_index = 1\<rparr>,
       \<lparr>m_active = False, m_next = nullptr, m_object = (), m_index = 2\<rparr>]"
  have loop: "\<And>ks. \<not> is_free_list ?us (UnitPtr 1) ks"
    by (rule is_free_list_self_loop) simp_all
  show "\<not> is_free_list ?us (UnitPtr 0) fl"
  proof (cases fl)
    case Nil
    then show ?thesis by simp
  next
    case (Cons k ks)
    with loop [of ks] show ?thesis by auto
  qed
next
  show "unat (- 1 :: size_t) = 2 ^ 64 - 1"
    by (simp add: unsigned_minus_1_eq_mask mask_eq_exp_minus_1)
qed

subsection \<open>The outcome of calls and runs of the indexed pool\<close>

text \<open>
  \<open>deactivate\<close> of the indexed pool with an index in range on a pool whose free list is
  empty: when the \<open>next_\<close> left in the unit is not null, the comparison
  \<open>first_available_ < pool_[index].next_\<close> holds and \<open>first_available_->next_\<close> is read
  through the null pointer.
\<close>

lemma IndexedObjectPool_deactivate_null_head:
  assumes "m_pool p = Some us" "unat index < length us" "index < m_capacity p"
    and "m_first_available p = nullptr" "m_next (us ! unat index) \<noteq> nullptr"
  shows "IndexedObjectPool_deactivate index p = Inl NullDereference"
proof -
  from assms(5) obtain m where "m_next (us ! unat index) = UnitPtr m"
    by (cases "m_next (us ! unat index)") auto
  with assms(1-4) show ?thesis
    by (simp add: IndexedObjectPool_deactivate_def write_unit_def read_unit_def deref_def)
qed

text \<open>
  In every other case the call completes, when a non-null \<open>first_available_\<close> points into
  the array.
\<close>

lemma IndexedObjectPool_deactivate_completes:
  assumes "m_pool p = Some us" "length us = unat (m_capacity p)" "index < m_capacity p"
    and "valid_ptr (length us) (m_first_available p)"
    and "m_first_available p \<noteq> nullptr \<or> m_next (us ! unat index) = nullptr"
  shows "\<exists>p'. IndexedObjectPool_deactivate index p = Inr p'"
proof -
  let ?i = "unat index"
  let ?tail = "\<lambda>p3. (let p4 = p3\<lparr>m_active_count := m_active_count p3 - 1\<rparr> in
              if m_highest_active_index p4 = index then
                if index = 0 then Inr p4
                else find_previous_highest (m_highest_active_index p4 - 1) p4
              else Inr p4)"
  from assms(2,3) have i: "?i < length us"
    by (simp add: word_less_nat_alt)
  have tail: "\<exists>p'. ?tail p3 = Inr p'"
    if "m_pool p3 = Some vs" "length vs = length us" "m_capacity p3 = m_capacity p" for p3 vs
  proof (cases "m_highest_active_index p3 = index \<and> index \<noteq> 0")
    case False
    then show ?thesis by (auto simp: Let_def)
  next
    case True
    let ?p4 = "p3\<lparr>m_active_count := m_active_count p3 - 1\<rparr>"
    from True have "0 < index"
      by (simp add: word_neq_0_conv)
    then have "unat (index - 1) = ?i - 1"
      by (rule unat_pred_capacity)
    with i have "unat (index - 1) < length vs"
      using that(2) by simp
    from find_previous_highest_spec [of ?p4 vs "index - 1", OF _ _ this refl] that assms(2)
    obtain h where "find_previous_highest (index - 1) ?p4 = Inr (?p4\<lparr>m_highest_active_index := h\<rparr>)"
      by auto
    with True show ?thesis by (simp add: Let_def)
  qed
  show ?thesis
  proof (cases "ptr_less (m_first_available p) (m_next (us ! ?i))")
    case False
    let ?vs = "us[?i := (us ! ?i)\<lparr>m_active := False, m_next := m_first_available p\<rparr>]"
    let ?p3 = "p\<lparr>m_pool := Some ?vs, m_first_available := UnitPtr ?i\<rparr>"
    from False assms(1,3) i have eq: "IndexedObjectPool_deactivate index p = ?tail ?p3"
      by (simp add: IndexedObjectPool_deactivate_def write_unit_def read_unit_def)
    have "\<exists>p'. ?tail ?p3 = Inr p'"
      by (rule tail [of ?p3 ?vs]) simp_all
    then show ?thesis
      unfolding eq .
  next
    case True
    with assms(5) obtain k where k: "m_first_available p = UnitPtr k"
      by (cases "m_first_available p") auto
    with assms(4) have kl: "k < length us" by simp
    let ?us1 = "us[?i := (us ! ?i)\<lparr>m_active := False\<rparr>]"
    let ?us2 = "?us1[k := (?us1 ! k)\<lparr>m_next := UnitPtr ?i\<rparr>]"
    let ?vs = "?us2[?i := (?us2 ! ?i)\<lparr>m_next := m_next (?us1 ! k)\<rparr>]"
    let ?p3 = "p\<lparr>m_pool := Some ?vs\<rparr>"
    from True k kl assms(1,3) i have eq: "IndexedObjectPool_deactivate index p = ?tail ?p3"
      by (simp add: IndexedObjectPool_deactivate_def write_unit_def read_unit_def deref_def
          assign_through_def)
    have "\<exists>p'. ?tail ?p3 = Inr p'"
      by (rule tail [of ?p3 ?vs]) simp_all
    then show ?thesis
      unfolding eq .
  qed
qed


text \<open>The indexed pool keeps its pointers within the array, in every call that completes.\<close>

lemma valid_next_indexed_cleared:
  "\<forall>u\<in>set (indexed_cleared us). valid_ptr (length us) (m_next u)"
  by (auto simp: indexed_cleared_def)

lemma pool_wf_indexed_ctor:
  assumes "IndexedObjectPool_ctor mem d capacity = Inr p"
  shows "pool_wf p"
proof -
  from assms have c: "0 < capacity"
    by (rule IndexedObjectPool_ctor_InrD)
  then have "0 < unat capacity"
    by (simp add: word_less_nat_alt)
  with assms c IndexedObjectPool_ctor_mem [OF assms] valid_next_indexed_cleared [of "replicate (unat capacity)
      \<lparr>m_active = False, m_next = nullptr, m_object = d, m_index = 0\<rparr>"]
  show ?thesis
    by (auto simp: IndexedObjectPool_ctor_ok pool_wf_def simp del: replicate.simps)
qed

lemma pool_wf_indexed_clear:
  assumes "pool_wf p"
  shows "\<exists>p'. IndexedObjectPool_clear p = Inr p' \<and> pool_wf p'"
proof -
  from assms obtain us where us: "m_pool p = Some us" "length us = unat (m_capacity p)"
    "0 < m_capacity p"
    by (auto simp: pool_wf_def)
  then have "0 < length us"
    by (simp add: word_less_nat_alt)
  with us valid_next_indexed_cleared [of us] show ?thesis
    by (auto simp: IndexedObjectPool_clear_ok [OF us] pool_wf_def)
qed

lemma pool_wf_indexed_activate:
  assumes "pool_wf p"
  shows "\<exists>p' h. IndexedObjectPool_activate p = Inr (p', h) \<and> pool_wf p'"
proof (cases "m_first_available p")
  case nullptr
  with assms show ?thesis
    by (auto simp: IndexedObjectPool_activate_null)
next
  case (UnitPtr k)
  from assms obtain us where us: "m_pool p = Some us" "length us = unat (m_capacity p)"
    "0 < m_capacity p" "valid_ptr (length us) (m_first_available p)"
    "\<forall>u\<in>set us. valid_ptr (length us) (m_next u)"
    by (auto simp: pool_wf_def)
  from us(4) UnitPtr have k: "k < length us" by simp
  then have "valid_ptr (length us) (m_next (us ! k))"
    using us(5) by simp
  moreover from this have "\<forall>u\<in>set (us[k := (us ! k)\<lparr>m_active := True\<rparr>]).
      valid_ptr (length us) (m_next u)"
    by (intro valid_next_update [OF us(5)]) simp
  ultimately show ?thesis
    using us(1,2,3) by (simp add: IndexedObjectPool_activate_Some [OF us(1) UnitPtr k] pool_wf_def)
qed

lemma pool_wf_indexed_deactivate:
  assumes "pool_wf p" "IndexedObjectPool_deactivate index p = Inr p'"
  shows "pool_wf p'"
proof (cases "index < m_capacity p")
  case False
  with assms show ?thesis
    by (simp add: IndexedObjectPool_deactivate_def)
next
  case True
  from assms(1) obtain us where us: "m_pool p = Some us" "length us = unat (m_capacity p)"
    "0 < m_capacity p" "valid_ptr (length us) (m_first_available p)"
    "\<forall>u\<in>set us. valid_ptr (length us) (m_next u)"
    by (auto simp: pool_wf_def)
  let ?i = "unat index"
  let ?n = "length us"
  from True us(2) have i: "?i < ?n"
    by (simp add: word_less_nat_alt)
  let ?us1 = "us[?i := (us ! ?i)\<lparr>m_active := False\<rparr>]"
  have v1: "\<forall>u\<in>set ?us1. valid_ptr ?n (m_next u)"
    by (intro valid_next_update [OF us(5)]) (use us(5) i in simp)
  from IndexedObjectPool_deactivate_exact [OF assms(2) True us(1) i] obtain us' fa' h where
    p': "p' = p\<lparr>m_first_available := fa', m_pool := Some us',
                 m_active_count := m_active_count p - 1, m_highest_active_index := h\<rparr>"
    and alt: "(fa' = UnitPtr ?i \<and>
             us' = us[?i := (us ! ?i)\<lparr>m_active := False, m_next := m_first_available p\<rparr>]) \<or>
            (\<exists>k. k < ?n \<and> fa' = UnitPtr k \<and>
                 us' = (?us1[k := (?us1 ! k)\<lparr>m_next := UnitPtr ?i\<rparr>])
                       [?i := (?us1[k := (?us1 ! k)\<lparr>m_next := UnitPtr ?i\<rparr>] ! ?i)
                          \<lparr>m_next := m_next (?us1 ! k)\<rparr>])"
    by blast
  from alt have "length us' = ?n \<and> valid_ptr ?n fa' \<and> (\<forall>u\<in>set us'. valid_ptr ?n (m_next u))"
  proof
    assume a: "fa' = UnitPtr ?i \<and>
             us' = us[?i := (us ! ?i)\<lparr>m_active := False, m_next := m_first_available p\<rparr>]"
    have "\<forall>u\<in>set (us[?i := (us ! ?i)\<lparr>m_active := False, m_next := m_first_available p\<rparr>]).
        valid_ptr ?n (m_next u)"
      by (intro valid_next_update [OF us(5)]) (use us(4) in simp)
    with a i show ?thesis by simp
  next
    assume "\<exists>k. k < ?n \<and> fa' = UnitPtr k \<and>
                 us' = (?us1[k := (?us1 ! k)\<lparr>m_next := UnitPtr ?i\<rparr>])
                       [?i := (?us1[k := (?us1 ! k)\<lparr>m_next := UnitPtr ?i\<rparr>] ! ?i)
                          \<lparr>m_next := m_next (?us1 ! k)\<rparr>]"
    then obtain k where k: "k < ?n" "fa' = UnitPtr k"
      and u: "us' = (?us1[k := (?us1 ! k)\<lparr>m_next := UnitPtr ?i\<rparr>])
                       [?i := (?us1[k := (?us1 ! k)\<lparr>m_next := UnitPtr ?i\<rparr>] ! ?i)
                          \<lparr>m_next := m_next (?us1 ! k)\<rparr>]"
      by blast
    let ?us2 = "?us1[k := (?us1 ! k)\<lparr>m_next := UnitPtr ?i\<rparr>]"
    have v2: "\<forall>u\<in>set ?us2. valid_ptr ?n (m_next u)"
      by (intro valid_next_update [OF v1]) (use i in simp)
    have "valid_ptr ?n (m_next (?us1 ! k))"
      using v1 k(1) by (metis length_list_update nth_mem)
    then have "\<forall>u\<in>set (?us2[?i := (?us2 ! ?i)\<lparr>m_next := m_next (?us1 ! k)\<rparr>]).
        valid_ptr ?n (m_next u)"
      by (intro valid_next_update [OF v2]) simp
    with k u show ?thesis by simp
  qed
  with p' us(2,3) show ?thesis
    by (simp add: pool_wf_def)
qed

lemma pool_wf_indexed_run:
  "pool_wf p \<Longrightarrow> IndexedObjectPool_run cs p = Inr p' \<Longrightarrow> pool_wf p'"
proof (induction cs arbitrary: p)
  case Nil
  then show ?case by simp
next
  case (Cons c cs)
  from Cons.prems(2) obtain p1 where p1: "IndexedObjectPool_step c p = Inr p1"
    "IndexedObjectPool_run cs p1 = Inr p'"
    by (auto split: sum.splits)
  have "pool_wf p1"
  proof (cases c)
    case Activate
    with p1(1) pool_wf_indexed_activate [OF Cons.prems(1)] show ?thesis
      by (auto simp: IndexedObjectPool_step_def)
  next
    case (Deactivate i)
    with p1(1) have "IndexedObjectPool_deactivate i p = Inr p1"
      by (simp add: IndexedObjectPool_step_def)
    from pool_wf_indexed_deactivate [OF Cons.prems(1) this] show ?thesis .
  next
    case Clear
    with p1(1) pool_wf_indexed_clear [OF Cons.prems(1)] show ?thesis
      by (auto simp: IndexedObjectPool_step_def)
  qed
  then show ?case
    using p1(2) by (rule Cons.IH)
qed

lemma IndexedObjectPool_pool_wf:
  assumes "IndexedObjectPool_ctor mem d capacity = Inr p0" "IndexedObjectPool_run cs p0 = Inr p"
  shows "pool_wf p"
  using pool_wf_indexed_run [OF pool_wf_indexed_ctor [OF assms(1)] assms(2)] .

text \<open>
  So in a state an indexed pool reaches, \<open>deactivate\<close> with an index in range has undefined
  behaviour exactly when the free list is empty and the unit's \<open>next_\<close> is not null.
\<close>

lemma IndexedObjectPool_deactivate_total:
  assumes "IndexedObjectPool_ctor mem d capacity = Inr p0" "IndexedObjectPool_run cs p0 = Inr p"
    and "index < IndexedObjectPool_capacity p"
  shows "\<exists>us. m_pool p = Some us \<and> unat index < length us \<and>
           (if m_first_available p = nullptr \<and> m_next (us ! unat index) \<noteq> nullptr
            then IndexedObjectPool_deactivate index p = Inl NullDereference
            else \<exists>p'. IndexedObjectPool_deactivate index p = Inr p')"
proof -
  from IndexedObjectPool_pool_wf [OF assms(1,2)] obtain us where
    us: "m_pool p = Some us" "length us = unat (m_capacity p)"
    "valid_ptr (length us) (m_first_available p)"
    by (auto simp: pool_wf_def)
  from assms(3) have lt: "index < m_capacity p"
    by (simp add: IndexedObjectPool_capacity_def)
  with us(2) have i: "unat index < length us"
    by (simp add: word_less_nat_alt)
  show ?thesis
  proof (cases "m_first_available p = nullptr \<and> m_next (us ! unat index) \<noteq> nullptr")
    case True
    then have "IndexedObjectPool_deactivate index p = Inl NullDereference"
      using IndexedObjectPool_deactivate_null_head [OF us(1) i lt] by simp
    with True us(1) i show ?thesis by simp
  next
    case False
    then have "m_first_available p \<noteq> nullptr \<or> m_next (us ! unat index) = nullptr"
      by simp
    from IndexedObjectPool_deactivate_completes [OF us(1,2) lt us(3) this] False us(1) i
    show ?thesis by auto
  qed
qed

text \<open>
  A call of \<open>deactivate\<close> and a run of calls on the indexed pool complete or end in this
  null dereference; there is no access outside the array.
\<close>

lemma IndexedObjectPool_deactivate_outcome:
  assumes "pool_wf p"
  shows "IndexedObjectPool_deactivate index p = Inl NullDereference \<or>
         (\<exists>p'. IndexedObjectPool_deactivate index p = Inr p')"
proof (cases "index < m_capacity p")
  case False
  then show ?thesis
    by (simp add: IndexedObjectPool_deactivate_def)
next
  case True
  from assms obtain us where us: "m_pool p = Some us" "length us = unat (m_capacity p)"
    "valid_ptr (length us) (m_first_available p)"
    by (auto simp: pool_wf_def)
  from True us(2) have i: "unat index < length us"
    by (simp add: word_less_nat_alt)
  show ?thesis
  proof (cases "m_first_available p = nullptr \<and> m_next (us ! unat index) \<noteq> nullptr")
    case True
    then show ?thesis
      using IndexedObjectPool_deactivate_null_head [OF us(1) i \<open>index < m_capacity p\<close>] by simp
  next
    case False
    then have "m_first_available p \<noteq> nullptr \<or> m_next (us ! unat index) = nullptr"
      by simp
    from IndexedObjectPool_deactivate_completes [OF us(1,2) True us(3) this]
    show ?thesis by simp
  qed
qed

lemma IndexedObjectPool_run_outcome:
  "pool_wf p \<Longrightarrow>
   IndexedObjectPool_run cs p = Inl NullDereference \<or>
   (\<exists>p'. IndexedObjectPool_run cs p = Inr p')"
proof (induction cs arbitrary: p)
  case Nil
  then show ?case by simp
next
  case (Cons c cs)
  have "IndexedObjectPool_step c p = Inl NullDereference \<or>
        (\<exists>p1. IndexedObjectPool_step c p = Inr p1 \<and> pool_wf p1)"
  proof (cases c)
    case Activate
    with pool_wf_indexed_activate [OF Cons.prems] show ?thesis
      by (auto simp: IndexedObjectPool_step_def)
  next
    case (Deactivate i)
    with IndexedObjectPool_deactivate_outcome [OF Cons.prems, of i]
      pool_wf_indexed_deactivate [OF Cons.prems, of i]
    show ?thesis
      by (auto simp: IndexedObjectPool_step_def)
  next
    case Clear
    with pool_wf_indexed_clear [OF Cons.prems] show ?thesis
      by (auto simp: IndexedObjectPool_step_def)
  qed
  then show ?case
  proof
    assume "IndexedObjectPool_step c p = Inl NullDereference"
    then show ?thesis by simp
  next
    assume "\<exists>p1. IndexedObjectPool_step c p = Inr p1 \<and> pool_wf p1"
    then obtain p1 where "IndexedObjectPool_step c p = Inr p1" "pool_wf p1"
      by blast
    with Cons.IH [of p1] show ?thesis by simp
  qed
qed

text \<open>
  A run on a constructed indexed pool in which every \<open>deactivate\<close> is given the index of an
  active unit ends in the null dereference or reaches a state in which the highest active
  index is as described above.
\<close>

lemma highest_active_index_outcome:
  assumes "IndexedObjectPool_ctor mem d capacity = Inr p0" and "IndexedObjectPool_legal cs p0"
  shows "IndexedObjectPool_run cs p0 = Inl NullDereference \<or>
         (\<exists>p us. IndexedObjectPool_run cs p0 = Inr p \<and> m_pool p = Some us \<and>
            unat (highestActiveIndex p) =
              (if active_indices us = [] then 0 else Max (set (active_indices us))) \<and>
            (\<forall>index. highestActiveIndex p = index \<and> 0 < index \<and>
                 IndexedObjectPool_active p index = Inr True \<longrightarrow>
               IndexedObjectPool_deactivate index p = Inl NullDereference \<or>
               (\<exists>p'. IndexedObjectPool_deactivate index p = Inr p' \<and>
                  unat (highestActiveIndex p') =
                    (if filter (\<lambda>j. m_active (us ! j)) [0..<unat index] = [] then 0
                     else Max (set (filter (\<lambda>j. m_active (us ! j)) [0..<unat index]))))))"
proof -
  from IndexedObjectPool_run_outcome [OF pool_wf_indexed_ctor [OF assms(1)], of cs]
  show ?thesis
  proof
    assume "IndexedObjectPool_run cs p0 = Inl NullDereference"
    then show ?thesis by (rule disjI1)
  next
    assume "\<exists>p. IndexedObjectPool_run cs p0 = Inr p"
    then obtain p where p: "IndexedObjectPool_run cs p0 = Inr p"
      by (rule exE)
    from highest_active_index_completed [OF assms p] obtain us where
      us: "m_pool p = Some us"
      and hi: "unat (highestActiveIndex p) =
             (if active_indices us = [] then 0 else Max (set (active_indices us)))"
      and de: "\<And>index p'. highestActiveIndex p = index \<Longrightarrow> 0 < index \<Longrightarrow>
                IndexedObjectPool_active p index = Inr True \<Longrightarrow>
                IndexedObjectPool_deactivate index p = Inr p' \<Longrightarrow>
              unat (highestActiveIndex p') =
                (if filter (\<lambda>j. m_active (us ! j)) [0..<unat index] = [] then 0
                 else Max (set (filter (\<lambda>j. m_active (us ! j)) [0..<unat index])))"
      by blast
    have wf: "pool_wf p"
      using assms(1) p by (rule IndexedObjectPool_pool_wf)
    have "IndexedObjectPool_deactivate index p = Inl NullDereference \<or>
               (\<exists>p'. IndexedObjectPool_deactivate index p = Inr p' \<and>
                  unat (highestActiveIndex p') =
                    (if filter (\<lambda>j. m_active (us ! j)) [0..<unat index] = [] then 0
                     else Max (set (filter (\<lambda>j. m_active (us ! j)) [0..<unat index]))))"
      if a: "highestActiveIndex p = index" "0 < index"
        "IndexedObjectPool_active p index = Inr True" for index
      using IndexedObjectPool_deactivate_outcome [OF wf, of index] de [OF a] by blast
    with p us hi show ?thesis
      by blast
  qed
qed

section \<open>The claims\<close>

text \<open>
  C7. Free-list cardinality invariant of the basic pool. Start from a constructed pool and run
  any sequence of \<open>activate\<close>, \<open>deactivate\<close> and \<open>clear\<close> in which every \<open>deactivate\<close> is
  given the index of a unit that is active at that moment. Then the run completes without
  undefined behaviour, and in the pool it reaches the free list holds exactly
  \<open>capacity - active_count\<close> units, pairwise distinct and each marked inactive; so
  \<open>activeCount() = capacity() - |free list|\<close>.
\<close>

theorem ObjectPool_free_list_cardinality:
  assumes "ObjectPool_ctor mem d capacity = Inr p0" and "ObjectPool_legal cs p0"
  shows "\<exists>p us fl. ObjectPool_run cs p0 = Inr p \<and> m_pool p = Some us \<and>
           is_free_list us (m_first_available p) fl \<and> distinct fl \<and>
           (\<forall>k\<in>set fl. k < length us \<and> \<not> m_active (us ! k)) \<and>
           length fl = unat (ObjectPool_capacity p) - unat (ObjectPool_activeCount p) \<and>
           ObjectPool_activeCount p \<le> ObjectPool_capacity p \<and>
           ObjectPool_activeCount p = ObjectPool_capacity p - of_nat (length fl)"
proof -
  from assms(1) have "0 < capacity" "mem (unat capacity)"
    by (rule ObjectPool_ctor_InrD, rule ObjectPool_ctor_mem)
  from free_list_inv_ctor [of capacity mem d, OF this] assms(1) have "free_list_inv p0"
    by simp
  from free_list_inv_run [OF this assms(2)] obtain p where
    p: "ObjectPool_run cs p0 = Inr p" "free_list_inv p"
    by blast
  from p(2) obtain us fl where us: "m_pool p = Some us" "length us = unat (m_capacity p)"
    and fl: "is_free_list us (m_first_available p) fl" "distinct fl"
    "\<forall>k\<in>set fl. \<not> m_active (us ! k)" "unat (m_active_count p) + length fl = length us"
    by (auto simp: free_list_inv_def)
  have "of_nat (unat (m_active_count p) + length fl) = (of_nat (unat (m_capacity p)) :: size_t)"
    using fl(4) us(2) by simp
  then have "m_active_count p = m_capacity p - of_nat (length fl)"
    by (simp add: eq_diff_eq)
  moreover have "m_active_count p \<le> m_capacity p"
    using fl(4) us(2) by (simp add: word_le_nat_alt)
  moreover have "length fl = unat (m_capacity p) - unat (m_active_count p)"
    using fl(4) us(2) by simp
  ultimately show ?thesis
    using p(1) us(1) fl(1,2,3) is_free_list_bound [OF fl(1)]
    unfolding ObjectPool_capacity_def ObjectPool_activeCount_def
    by (intro exI [of _ p] exI [of _ us] exI [of _ fl]) simp
qed

theorem ObjectPool_free_list_cardinality_witness:
  "\<exists>p us fl. ObjectPool_run [Activate, Activate, Deactivate 0, Activate, Clear, Activate]
             \<lparr>m_first_available = UnitPtr 0,
              m_pool = Some [\<lparr>m_active = False, m_next = UnitPtr 1, m_object = ()\<rparr>,
                             \<lparr>m_active = False, m_next = UnitPtr 2, m_object = ()\<rparr>,
                             \<lparr>m_active = False, m_next = nullptr, m_object = ()\<rparr>],
              m_active_count = 0, m_capacity = 3\<rparr> = Inr p \<and> m_pool p = Some us \<and>
           is_free_list us (m_first_available p) fl \<and> distinct fl \<and>
           (\<forall>k\<in>set fl. k < length us \<and> \<not> m_active (us ! k)) \<and>
           length fl = unat (ObjectPool_capacity p) - unat (ObjectPool_activeCount p) \<and>
           ObjectPool_activeCount p \<le> ObjectPool_capacity p \<and>
           ObjectPool_activeCount p = ObjectPool_capacity p - of_nat (length fl)"
proof (rule ObjectPool_free_list_cardinality [where d = "()" and capacity = 3])
  show "ObjectPool_ctor (free_store_of 8) () 3 =
          Inr \<lparr>m_first_available = UnitPtr 0,
               m_pool = Some [\<lparr>m_active = False, m_next = UnitPtr 1, m_object = ()\<rparr>,
                              \<lparr>m_active = False, m_next = UnitPtr 2, m_object = ()\<rparr>,
                              \<lparr>m_active = False, m_next = nullptr, m_object = ()\<rparr>],
               m_active_count = 0, m_capacity = 3\<rparr>"
    by (simp add: pool_eval)
  show "ObjectPool_legal [Activate, Activate, Deactivate 0, Activate, Clear, Activate]
          \<lparr>m_first_available = UnitPtr 0,
           m_pool = Some [\<lparr>m_active = False, m_next = UnitPtr 1, m_object = ()\<rparr>,
                          \<lparr>m_active = False, m_next = UnitPtr 2, m_object = ()\<rparr>,
                          \<lparr>m_active = False, m_next = nullptr, m_object = ()\<rparr>],
           m_active_count = 0, m_capacity = 3\<rparr>"
    by (simp add: pool_eval)
qed

text \<open>
  C6. \<open>ObjectPool::activate\<close>, in every state a constructed pool reaches by any calls of
  \<open>activate\<close>, \<open>deactivate\<close> and \<open>clear\<close>: with an empty free list (\<open>first_available_\<close> null)
  it returns the null pointer and leaves the pool as it is; otherwise it pops the head unit
  of the free list, marks it active, increments \<open>active_count_\<close> and returns the pointer to
  that unit's object. On a freshly constructed pool of capacity \<open>N\<close> the first \<open>N\<close> calls
  return the units 0, 1, ..., \<open>N - 1\<close> (pairwise distinct, none null) and call \<open>N + 1\<close> returns
  null.
\<close>

theorem ObjectPool_activate_spec:
  assumes "ObjectPool_ctor mem d capacity = Inr p0" and "ObjectPool_run cs p0 = Inr p"
  shows "(m_first_available p = nullptr \<longrightarrow> ObjectPool_activate p = Inr (p, nullptr)) \<and>
         (\<forall>k. m_first_available p = UnitPtr k \<longrightarrow>
            (\<exists>us. m_pool p = Some us \<and> k < length us \<and>
               ObjectPool_activate p =
                 Inr (p\<lparr>m_first_available := m_next (us ! k),
                        m_pool := Some (us[k := (us ! k)\<lparr>m_active := True\<rparr>]),
                        m_active_count := m_active_count p + 1\<rparr>, UnitPtr k))) \<and>
         (\<exists>q. ObjectPool_activate_times (unat capacity) p0 =
                 Inr (q, map UnitPtr [0..<unat capacity]) \<and>
              distinct (map UnitPtr [0..<unat capacity]) \<and>
              nullptr \<notin> set (map UnitPtr [0..<unat capacity]) \<and>
              ObjectPool_activate q = Inr (q, nullptr))"
proof (intro conjI allI impI)
  assume "m_first_available p = nullptr"
  then show "ObjectPool_activate p = Inr (p, nullptr)"
    by (rule ObjectPool_activate_null)
next
  fix k assume k: "m_first_available p = UnitPtr k"
  from pool_wf_reachable [OF assms] obtain us where us: "m_pool p = Some us"
    "valid_ptr (length us) (m_first_available p)"
    by (auto simp: pool_wf_def)
  with k have "k < length us" by simp
  with us(1) ObjectPool_activate_Some [OF us(1) k this]
  show "\<exists>us. m_pool p = Some us \<and> k < length us \<and>
               ObjectPool_activate p =
                 Inr (p\<lparr>m_first_available := m_next (us ! k),
                        m_pool := Some (us[k := (us ! k)\<lparr>m_active := True\<rparr>]),
                        m_active_count := m_active_count p + 1\<rparr>, UnitPtr k)"
    by blast
next
  let ?us = "cleared (replicate (unat capacity)
    \<lparr>m_active = False, m_next = nullptr, m_object = d\<rparr>)"
  from assms(1) have c: "0 < capacity"
    by (rule ObjectPool_ctor_InrD)
  then have n: "0 < unat capacity"
    by (simp add: word_less_nat_alt)
  from assms(1) c ObjectPool_ctor_mem [OF assms(1)]
  have p0: "m_pool p0 = Some ?us" "m_first_available p0 = UnitPtr 0"
    by (auto simp: ObjectPool_ctor_ok)
  have "is_free_list ?us (UnitPtr 0) [0..<unat capacity]"
    using is_free_list_cleared [of 0 "replicate (unat capacity)
      \<lparr>m_active = False, m_next = nullptr, m_object = d\<rparr>", OF _ refl] n
    by simp
  then have "is_free_list ?us (m_first_available p0) [0..<unat capacity]"
    by (simp add: p0(2))
  from activate_times_free_list [OF p0(1) this] obtain q where
    q: "ObjectPool_activate_times (unat capacity) p0 = Inr (q, map UnitPtr [0..<unat capacity])"
    "m_first_available q = nullptr"
    by auto
  from q(2) have "ObjectPool_activate q = Inr (q, nullptr)"
    by (rule ObjectPool_activate_null)
  moreover have "distinct (map UnitPtr [0..<unat capacity])"
    by (simp add: distinct_map inj_on_def)
  moreover have "nullptr \<notin> set (map UnitPtr [0..<unat capacity])"
    by auto
  ultimately show "\<exists>q. ObjectPool_activate_times (unat capacity) p0 =
                 Inr (q, map UnitPtr [0..<unat capacity]) \<and>
              distinct (map UnitPtr [0..<unat capacity]) \<and>
              nullptr \<notin> set (map UnitPtr [0..<unat capacity]) \<and>
              ObjectPool_activate q = Inr (q, nullptr)"
    using q(1) by blast
qed

theorem ObjectPool_activate_spec_witness:
  "ObjectPool_ctor (free_store_of 8) () 2 =
     Inr \<lparr>m_first_available = UnitPtr 0,
          m_pool = Some [\<lparr>m_active = False, m_next = UnitPtr 1, m_object = ()\<rparr>,
                         \<lparr>m_active = False, m_next = nullptr, m_object = ()\<rparr>],
          m_active_count = 0, m_capacity = 2\<rparr> \<and>
   ObjectPool_run [Activate]
     \<lparr>m_first_available = UnitPtr 0,
      m_pool = Some [\<lparr>m_active = False, m_next = UnitPtr 1, m_object = ()\<rparr>,
                     \<lparr>m_active = False, m_next = nullptr, m_object = ()\<rparr>],
      m_active_count = 0, m_capacity = 2\<rparr> =
     Inr \<lparr>m_first_available = UnitPtr 1,
          m_pool = Some [\<lparr>m_active = True, m_next = UnitPtr 1, m_object = ()\<rparr>,
                         \<lparr>m_active = False, m_next = nullptr, m_object = ()\<rparr>],
          m_active_count = 1, m_capacity = 2\<rparr> \<and>
   ObjectPool_activate
     \<lparr>m_first_available = UnitPtr 1,
      m_pool = Some [\<lparr>m_active = True, m_next = UnitPtr 1, m_object = ()\<rparr>,
                     \<lparr>m_active = False, m_next = nullptr, m_object = ()\<rparr>],
      m_active_count = 1, m_capacity = 2\<rparr> =
     Inr (\<lparr>m_first_available = nullptr,
           m_pool = Some [\<lparr>m_active = True, m_next = UnitPtr 1, m_object = ()\<rparr>,
                          \<lparr>m_active = True, m_next = nullptr, m_object = ()\<rparr>],
           m_active_count = 2, m_capacity = 2\<rparr>, UnitPtr 1) \<and>
   (\<exists>q. ObjectPool_activate_times 2
          \<lparr>m_first_available = UnitPtr 0,
           m_pool = Some [\<lparr>m_active = False, m_next = UnitPtr 1, m_object = ()\<rparr>,
                          \<lparr>m_active = False, m_next = nullptr, m_object = ()\<rparr>],
           m_active_count = 0, m_capacity = 2\<rparr> = Inr (q, [UnitPtr 0, UnitPtr 1]) \<and>
        ObjectPool_activate q = Inr (q, nullptr))"
proof -
  let ?p0 = "\<lparr>m_first_available = UnitPtr 0,
          m_pool = Some [\<lparr>m_active = False, m_next = UnitPtr 1, m_object = ()\<rparr>,
                         \<lparr>m_active = False, m_next = nullptr, m_object = ()\<rparr>],
          m_active_count = 0, m_capacity = 2\<rparr>"
  let ?p1 = "\<lparr>m_first_available = UnitPtr 1,
          m_pool = Some [\<lparr>m_active = True, m_next = UnitPtr 1, m_object = ()\<rparr>,
                         \<lparr>m_active = False, m_next = nullptr, m_object = ()\<rparr>],
          m_active_count = 1, m_capacity = 2\<rparr>"
  have h1: "ObjectPool_ctor (free_store_of 8) () 2 = Inr ?p0"
    by (simp add: pool_eval)
  have h2: "ObjectPool_run [Activate] ?p0 = Inr ?p1"
    by (simp add: pool_eval)
  have "[0..<2] = [0::nat, 1]"
    by (simp add: numeral_2_eq_2)
  then have l: "map UnitPtr [0..<unat (2::size_t)] = [UnitPtr 0, UnitPtr 1]"
    by simp
  note spec = ObjectPool_activate_spec [OF h1 h2]
  from spec have "\<exists>us. m_pool ?p1 = Some us \<and> 1 < length us \<and>
       ObjectPool_activate ?p1 =
         Inr (?p1\<lparr>m_first_available := m_next (us ! 1),
                 m_pool := Some (us[1 := (us ! 1)\<lparr>m_active := True\<rparr>]),
                 m_active_count := m_active_count ?p1 + 1\<rparr>, UnitPtr 1)"
    by simp
  then have a: "ObjectPool_activate ?p1 =
     Inr (\<lparr>m_first_available = nullptr,
           m_pool = Some [\<lparr>m_active = True, m_next = UnitPtr 1, m_object = ()\<rparr>,
                          \<lparr>m_active = True, m_next = nullptr, m_object = ()\<rparr>],
           m_active_count = 2, m_capacity = 2\<rparr>, UnitPtr 1)"
    by auto
  from spec have b: "\<exists>q. ObjectPool_activate_times 2 ?p0 = Inr (q, [UnitPtr 0, UnitPtr 1]) \<and>
        ObjectPool_activate q = Inr (q, nullptr)"
    unfolding l by auto
  from h1 h2 a b show ?thesis
    by (intro conjI)
qed

text \<open>
  C8. Last-freed-first reuse of the basic pool: in every state a constructed pool reaches,
  for every index \<open>i\<close> of a unit that is active, \<open>deactivate(i)\<close> makes unit \<open>i\<close> the head of
  the free list, and the next \<open>activate()\<close> returns the pointer to unit \<open>i\<close>.
\<close>

theorem ObjectPool_lifo_reuse:
  assumes "ObjectPool_ctor mem d capacity = Inr p0" and "ObjectPool_run cs p0 = Inr p"
    and "ObjectPool_active p index = Inr True"
  shows "\<exists>p1 p2. ObjectPool_deactivate index p = Inr p1 \<and>
           m_first_available p1 = UnitPtr (unat index) \<and>
           ObjectPool_at p index = Inr (UnitPtr (unat index)) \<and>
           ObjectPool_activate p1 = Inr (p2, UnitPtr (unat index))"
proof -
  from assms(3) obtain us where us: "m_pool p = Some us" "unat index < length us"
    by (auto dest: ObjectPool_active_InrD)
  from pool_wf_reachable [OF assms(1,2)] us(1) have "length us = unat (m_capacity p)"
    by (auto simp: pool_wf_def)
  with us(2) have lt: "index < m_capacity p"
    by (simp add: word_less_nat_alt)
  let ?us = "us[unat index := (us ! unat index)\<lparr>m_active := False, m_next := m_first_available p\<rparr>]"
  let ?p1 = "p\<lparr>m_first_available := UnitPtr (unat index), m_pool := Some ?us,
              m_active_count := m_active_count p - 1\<rparr>"
  have "ObjectPool_deactivate index p = Inr ?p1"
    by (rule ObjectPool_deactivate_Some [OF us(1) lt us(2)])
  moreover have "\<exists>p2. ObjectPool_activate ?p1 = Inr (p2, UnitPtr (unat index))"
    using ObjectPool_activate_Some [of ?p1 ?us "unat index"] us(2) by simp
  ultimately show ?thesis
    using lt us by (auto simp: ObjectPool_at_def read_unit_def)
qed

theorem ObjectPool_lifo_reuse_witness:
  "\<exists>p1 p2. ObjectPool_deactivate 0
             \<lparr>m_first_available = nullptr,
              m_pool = Some [\<lparr>m_active = True, m_next = UnitPtr 1, m_object = ()\<rparr>,
                             \<lparr>m_active = True, m_next = nullptr, m_object = ()\<rparr>],
              m_active_count = 2, m_capacity = 2\<rparr> = Inr p1 \<and>
           m_first_available p1 = UnitPtr (unat (0::size_t)) \<and>
           ObjectPool_at
             \<lparr>m_first_available = nullptr,
              m_pool = Some [\<lparr>m_active = True, m_next = UnitPtr 1, m_object = ()\<rparr>,
                             \<lparr>m_active = True, m_next = nullptr, m_object = ()\<rparr>],
              m_active_count = 2, m_capacity = 2\<rparr> 0 = Inr (UnitPtr (unat (0::size_t))) \<and>
           ObjectPool_activate p1 = Inr (p2, UnitPtr (unat (0::size_t)))"
proof (rule ObjectPool_lifo_reuse [where d = "()" and capacity = 2 and cs = "[Activate, Activate]"])
  show "ObjectPool_ctor (free_store_of 8) () 2 =
     Inr \<lparr>m_first_available = UnitPtr 0,
          m_pool = Some [\<lparr>m_active = False, m_next = UnitPtr 1, m_object = ()\<rparr>,
                         \<lparr>m_active = False, m_next = nullptr, m_object = ()\<rparr>],
          m_active_count = 0, m_capacity = 2\<rparr>"
    by (simp add: pool_eval)
  show "ObjectPool_run [Activate, Activate]
     \<lparr>m_first_available = UnitPtr 0,
      m_pool = Some [\<lparr>m_active = False, m_next = UnitPtr 1, m_object = ()\<rparr>,
                     \<lparr>m_active = False, m_next = nullptr, m_object = ()\<rparr>],
      m_active_count = 0, m_capacity = 2\<rparr> =
     Inr \<lparr>m_first_available = nullptr,
              m_pool = Some [\<lparr>m_active = True, m_next = UnitPtr 1, m_object = ()\<rparr>,
                             \<lparr>m_active = True, m_next = nullptr, m_object = ()\<rparr>],
              m_active_count = 2, m_capacity = 2\<rparr>"
    by (simp add: pool_eval)
  show "ObjectPool_active
     \<lparr>m_first_available = nullptr,
              m_pool = Some [\<lparr>m_active = True, m_next = UnitPtr 1, m_object = ()\<rparr>,
                             \<lparr>m_active = True, m_next = nullptr, m_object = ()\<rparr>],
              m_active_count = 2, m_capacity = 2\<rparr> 0 = Inr True"
    by (simp add: pool_eval)
qed

text \<open>
  C1. Constructing a pool with capacity 0, in both variants: the constructor allocates an
  array of no units and \<open>clear\<close> then assigns to \<open>pool_[capacity_ - 1].next_\<close>, the unit at
  offset \<open>2^64 - 1\<close>. The construction does not fail in a defined way; it writes outside
  the array.
\<close>

theorem ctor_zero_capacity_counterexample:
  "ObjectPool_ctor (free_store_of 8) () 0 = Inl OutOfBounds \<and>
   IndexedObjectPool_ctor (free_store_of 8) () 0 = Inl OutOfBounds"
  by (simp add: ObjectPool_ctor_zero IndexedObjectPool_ctor_zero free_store_of_def)

text \<open>
  C1, amended. With a positive capacity the constructors of both variants allocate exactly
  that many units when the free store can provide the array: the construction completes, and
  the pool reports this capacity and no active unit. When the free store cannot provide the
  array, \<open>new[]\<close> throws \<open>std::bad_alloc\<close> and no pool is constructed. The constructors do not
  check their argument.
\<close>

theorem ctor_positive_capacity:
  "0 < capacity \<longrightarrow>
     (mem (unat capacity) \<longrightarrow>
        (\<exists>p us. ObjectPool_ctor mem d capacity = Inr p \<and> m_pool p = Some us \<and>
           length us = unat capacity \<and> ObjectPool_capacity p = capacity \<and>
           ObjectPool_activeCount p = 0) \<and>
        (\<exists>q us. IndexedObjectPool_ctor mem d' capacity = Inr q \<and> m_pool q = Some us \<and>
           length us = unat capacity \<and> IndexedObjectPool_capacity q = capacity \<and>
           IndexedObjectPool_activeCount q = 0)) \<and>
     (\<not> mem (unat capacity) \<longrightarrow>
        ObjectPool_ctor mem d capacity = Inl BadAlloc \<and>
        IndexedObjectPool_ctor mem d' capacity = Inl BadAlloc)"
  by (simp add: ObjectPool_ctor_ok IndexedObjectPool_ctor_ok ObjectPool_ctor_BadAlloc
      IndexedObjectPool_ctor_BadAlloc ObjectPool_capacity_def ObjectPool_activeCount_def
      IndexedObjectPool_capacity_def IndexedObjectPool_activeCount_def del: replicate.simps)

theorem ctor_positive_capacity_witness:
  "(0::size_t) < 3 \<and> free_store_of 8 (unat (3::size_t)) \<and>
   (\<exists>p us. ObjectPool_ctor (free_store_of 8) () 3 = Inr p \<and> m_pool p = Some us \<and>
      length us = unat (3::size_t) \<and> ObjectPool_capacity p = 3 \<and>
      ObjectPool_activeCount p = 0) \<and>
   (\<exists>q us. IndexedObjectPool_ctor (free_store_of 8) () 3 = Inr q \<and> m_pool q = Some us \<and>
      length us = unat (3::size_t) \<and> IndexedObjectPool_capacity q = 3 \<and>
      IndexedObjectPool_activeCount q = 0) \<and>
   \<not> free_store_of 2 (unat (3::size_t)) \<and>
   ObjectPool_ctor (free_store_of 2) () 3 = Inl BadAlloc \<and>
   IndexedObjectPool_ctor (free_store_of 2) () 3 = Inl BadAlloc"
proof -
  have h: "(0::size_t) < 3" "free_store_of 8 (unat (3::size_t))"
    "\<not> free_store_of 2 (unat (3::size_t))"
    by (simp_all add: free_store_of_def)
  note a = ctor_positive_capacity [of 3 "free_store_of 8" "()" "()", THEN mp, OF h(1),
    THEN conjunct1, THEN mp, OF h(2)]
  note b = ctor_positive_capacity [of 3 "free_store_of 2" "()" "()", THEN mp, OF h(1),
    THEN conjunct2, THEN mp, OF h(3)]
  from h a b show ?thesis
    by (intro conjI) (erule conjunct1 conjunct2 | assumption)+
qed

text \<open>
  C2. The scenario of the claim on the indexed pool: capacity 5, five calls of \<open>activate\<close>
  (units 0 to 4 are active and the free list is empty), then \<open>deactivate(2)\<close>. The call
  compares the null \<open>first_available_\<close> with the stale \<open>pool_[2].next_\<close>, which still
  points to unit 3, takes the branch for a lower \<open>first_available_\<close> and reads
  \<open>first_available_->next_\<close> through the null pointer. The run of the scenario ends there.
\<close>

theorem IndexedObjectPool_low_index_scenario:
  "IndexedObjectPool_ctor (free_store_of 8) () 5 =
     Inr \<lparr>m_first_available = UnitPtr 0,
       m_pool = Some [\<lparr>m_active = False, m_next = UnitPtr 1, m_object = (), m_index = 0\<rparr>,
                      \<lparr>m_active = False, m_next = UnitPtr 2, m_object = (), m_index = 1\<rparr>,
                      \<lparr>m_active = False, m_next = UnitPtr 3, m_object = (), m_index = 2\<rparr>,
                      \<lparr>m_active = False, m_next = UnitPtr 4, m_object = (), m_index = 3\<rparr>,
                      \<lparr>m_active = False, m_next = nullptr, m_object = (), m_index = 4\<rparr>],
       m_active_count = 0, m_capacity = 5, m_highest_active_index = 0\<rparr> \<and>
   IndexedObjectPool_run [Activate, Activate, Activate, Activate, Activate]
     \<lparr>m_first_available = UnitPtr 0,
       m_pool = Some [\<lparr>m_active = False, m_next = UnitPtr 1, m_object = (), m_index = 0\<rparr>,
                      \<lparr>m_active = False, m_next = UnitPtr 2, m_object = (), m_index = 1\<rparr>,
                      \<lparr>m_active = False, m_next = UnitPtr 3, m_object = (), m_index = 2\<rparr>,
                      \<lparr>m_active = False, m_next = UnitPtr 4, m_object = (), m_index = 3\<rparr>,
                      \<lparr>m_active = False, m_next = nullptr, m_object = (), m_index = 4\<rparr>],
       m_active_count = 0, m_capacity = 5, m_highest_active_index = 0\<rparr> =
     Inr \<lparr>m_first_available = nullptr,
       m_pool = Some [\<lparr>m_active = True, m_next = UnitPtr 1, m_object = (), m_index = 0\<rparr>,
                      \<lparr>m_active = True, m_next = UnitPtr 2, m_object = (), m_index = 1\<rparr>,
                      \<lparr>m_active = True, m_next = UnitPtr 3, m_object = (), m_index = 2\<rparr>,
                      \<lparr>m_active = True, m_next = UnitPtr 4, m_object = (), m_index = 3\<rparr>,
                      \<lparr>m_active = True, m_next = nullptr, m_object = (), m_index = 4\<rparr>],
       m_active_count = 5, m_capacity = 5, m_highest_active_index = 4\<rparr> \<and>
   IndexedObjectPool_deactivate 2
     \<lparr>m_first_available = nullptr,
       m_pool = Some [\<lparr>m_active = True, m_next = UnitPtr 1, m_object = (), m_index = 0\<rparr>,
                      \<lparr>m_active = True, m_next = UnitPtr 2, m_object = (), m_index = 1\<rparr>,
                      \<lparr>m_active = True, m_next = UnitPtr 3, m_object = (), m_index = 2\<rparr>,
                      \<lparr>m_active = True, m_next = UnitPtr 4, m_object = (), m_index = 3\<rparr>,
                      \<lparr>m_active = True, m_next = nullptr, m_object = (), m_index = 4\<rparr>],
       m_active_count = 5, m_capacity = 5, m_highest_active_index = 4\<rparr> = Inl NullDereference \<and>
   IndexedObjectPool_run
     [Activate, Activate, Activate, Activate, Activate, Deactivate 2, Deactivate 0,
      Activate, Activate]
     \<lparr>m_first_available = UnitPtr 0,
       m_pool = Some [\<lparr>m_active = False, m_next = UnitPtr 1, m_object = (), m_index = 0\<rparr>,
                      \<lparr>m_active = False, m_next = UnitPtr 2, m_object = (), m_index = 1\<rparr>,
                      \<lparr>m_active = False, m_next = UnitPtr 3, m_object = (), m_index = 2\<rparr>,
                      \<lparr>m_active = False, m_next = UnitPtr 4, m_object = (), m_index = 3\<rparr>,
                      \<lparr>m_active = False, m_next = nullptr, m_object = (), m_index = 4\<rparr>],
       m_active_count = 0, m_capacity = 5, m_highest_active_index = 0\<rparr> = Inl NullDereference"
  by (simp add: indexed_pool_eval)

text \<open>
  C3. \<open>active(index)\<close> is \<open>pool_[index].active_\<close> without a check of the index: on a pool
  of capacity 1, \<open>active(1)\<close> reads outside the array, in both variants.
\<close>

theorem active_unchecked_counterexample:
  "ObjectPool_ctor (free_store_of 8) () 1 =
     Inr \<lparr>m_first_available = UnitPtr 0,
       m_pool = Some [\<lparr>m_active = False, m_next = nullptr, m_object = ()\<rparr>],
       m_active_count = 0, m_capacity = 1\<rparr> \<and>
   ObjectPool_active
     \<lparr>m_first_available = UnitPtr 0,
       m_pool = Some [\<lparr>m_active = False, m_next = nullptr, m_object = ()\<rparr>],
       m_active_count = 0, m_capacity = 1\<rparr> 1 = Inl OutOfBounds \<and>
   IndexedObjectPool_ctor (free_store_of 8) () 1 =
     Inr \<lparr>m_first_available = UnitPtr 0,
       m_pool = Some [\<lparr>m_active = False, m_next = nullptr, m_object = (), m_index = 0\<rparr>],
       m_active_count = 0, m_capacity = 1, m_highest_active_index = 0\<rparr> \<and>
   IndexedObjectPool_active
     \<lparr>m_first_available = UnitPtr 0,
       m_pool = Some [\<lparr>m_active = False, m_next = nullptr, m_object = (), m_index = 0\<rparr>],
       m_active_count = 0, m_capacity = 1, m_highest_active_index = 0\<rparr> 1 = Inl OutOfBounds"
  by (simp add: pool_eval indexed_pool_eval)

text \<open>
  C3, amended. In every state a constructed pool of either variant reaches, for every index
  below the capacity \<open>active(index)\<close> returns whether the unit at that index is active; for
  an index at or above the capacity it reads outside the array (the accessor with the bounds
  check is \<open>at\<close>).
\<close>

theorem active_in_range:
  "(ObjectPool_ctor mem d capacity = Inr p0 \<and> ObjectPool_run cs p0 = Inr p \<longrightarrow>
      (\<exists>us. m_pool p = Some us \<and>
         (index < ObjectPool_capacity p \<longrightarrow>
            ObjectPool_active p index = Inr (m_active (us ! unat index))) \<and>
         (ObjectPool_capacity p \<le> index \<longrightarrow> ObjectPool_active p index = Inl OutOfBounds))) \<and>
   (IndexedObjectPool_ctor mem' d' capacity' = Inr q0 \<and> IndexedObjectPool_run cs' q0 = Inr q \<longrightarrow>
      (\<exists>us. m_pool q = Some us \<and>
         (index' < IndexedObjectPool_capacity q \<longrightarrow>
            IndexedObjectPool_active q index' = Inr (m_active (us ! unat index'))) \<and>
         (IndexedObjectPool_capacity q \<le> index' \<longrightarrow>
            IndexedObjectPool_active q index' = Inl OutOfBounds)))"
proof (intro conjI impI)
  assume "ObjectPool_ctor mem d capacity = Inr p0 \<and> ObjectPool_run cs p0 = Inr p"
  then have "storage_ok p"
    by (auto intro: ObjectPool_storage_ok)
  then obtain us where "m_pool p = Some us" "length us = unat (m_capacity p)"
    by (rule storage_okD)
  then show "\<exists>us. m_pool p = Some us \<and>
         (index < ObjectPool_capacity p \<longrightarrow>
            ObjectPool_active p index = Inr (m_active (us ! unat index))) \<and>
         (ObjectPool_capacity p \<le> index \<longrightarrow> ObjectPool_active p index = Inl OutOfBounds)"
    by (auto simp: ObjectPool_capacity_def ObjectPool_active_def read_unit_def
        word_less_nat_alt word_le_nat_alt)
next
  assume "IndexedObjectPool_ctor mem' d' capacity' = Inr q0 \<and> IndexedObjectPool_run cs' q0 = Inr q"
  then have "storage_ok q"
    by (auto intro: IndexedObjectPool_storage_ok)
  then obtain us where "m_pool q = Some us" "length us = unat (m_capacity q)"
    by (rule storage_okD)
  then show "\<exists>us. m_pool q = Some us \<and>
         (index' < IndexedObjectPool_capacity q \<longrightarrow>
            IndexedObjectPool_active q index' = Inr (m_active (us ! unat index'))) \<and>
         (IndexedObjectPool_capacity q \<le> index' \<longrightarrow>
            IndexedObjectPool_active q index' = Inl OutOfBounds)"
    by (auto simp: IndexedObjectPool_capacity_def IndexedObjectPool_active_def read_unit_def
        word_less_nat_alt word_le_nat_alt)
qed

theorem active_in_range_witness:
  "ObjectPool_ctor (free_store_of 8) () 1 =
     Inr \<lparr>m_first_available = UnitPtr 0,
       m_pool = Some [\<lparr>m_active = False, m_next = nullptr, m_object = ()\<rparr>],
       m_active_count = 0, m_capacity = 1\<rparr> \<and>
   ObjectPool_run [Activate]
     \<lparr>m_first_available = UnitPtr 0,
       m_pool = Some [\<lparr>m_active = False, m_next = nullptr, m_object = ()\<rparr>],
       m_active_count = 0, m_capacity = 1\<rparr> =
     Inr \<lparr>m_first_available = nullptr,
       m_pool = Some [\<lparr>m_active = True, m_next = nullptr, m_object = ()\<rparr>],
       m_active_count = 1, m_capacity = 1\<rparr> \<and>
   ObjectPool_active
     \<lparr>m_first_available = nullptr,
       m_pool = Some [\<lparr>m_active = True, m_next = nullptr, m_object = ()\<rparr>],
       m_active_count = 1, m_capacity = 1\<rparr> 0 = Inr True \<and>
   ObjectPool_active
     \<lparr>m_first_available = nullptr,
       m_pool = Some [\<lparr>m_active = True, m_next = nullptr, m_object = ()\<rparr>],
       m_active_count = 1, m_capacity = 1\<rparr> 7 = Inl OutOfBounds \<and>
   IndexedObjectPool_ctor (free_store_of 8) () 1 =
     Inr \<lparr>m_first_available = UnitPtr 0,
       m_pool = Some [\<lparr>m_active = False, m_next = nullptr, m_object = (), m_index = 0\<rparr>],
       m_active_count = 0, m_capacity = 1, m_highest_active_index = 0\<rparr> \<and>
   IndexedObjectPool_run [Activate]
     \<lparr>m_first_available = UnitPtr 0,
       m_pool = Some [\<lparr>m_active = False, m_next = nullptr, m_object = (), m_index = 0\<rparr>],
       m_active_count = 0, m_capacity = 1, m_highest_active_index = 0\<rparr> =
     Inr \<lparr>m_first_available = nullptr,
       m_pool = Some [\<lparr>m_active = True, m_next = nullptr, m_object = (), m_index = 0\<rparr>],
       m_active_count = 1, m_capacity = 1, m_highest_active_index = 0\<rparr> \<and>
   IndexedObjectPool_active
     \<lparr>m_first_available = nullptr,
       m_pool = Some [\<lparr>m_active = True, m_next = nullptr, m_object = (), m_index = 0\<rparr>],
       m_active_count = 1, m_capacity = 1, m_highest_active_index = 0\<rparr> 0 = Inr True \<and>
   IndexedObjectPool_active
     \<lparr>m_first_available = nullptr,
       m_pool = Some [\<lparr>m_active = True, m_next = nullptr, m_object = (), m_index = 0\<rparr>],
       m_active_count = 1, m_capacity = 1, m_highest_active_index = 0\<rparr> 7 = Inl OutOfBounds"
proof -
  let ?pa = "\<lparr>m_first_available = UnitPtr 0,
       m_pool = Some [\<lparr>m_active = False, m_next = nullptr, m_object = ()\<rparr>],
       m_active_count = 0, m_capacity = 1\<rparr>"
  let ?pb = "\<lparr>m_first_available = nullptr,
       m_pool = Some [\<lparr>m_active = True, m_next = nullptr, m_object = ()\<rparr>],
       m_active_count = 1, m_capacity = 1\<rparr>"
  let ?qa = "\<lparr>m_first_available = UnitPtr 0,
       m_pool = Some [\<lparr>m_active = False, m_next = nullptr, m_object = (), m_index = 0\<rparr>],
       m_active_count = 0, m_capacity = 1, m_highest_active_index = 0\<rparr>"
  let ?qb = "\<lparr>m_first_available = nullptr,
       m_pool = Some [\<lparr>m_active = True, m_next = nullptr, m_object = (), m_index = 0\<rparr>],
       m_active_count = 1, m_capacity = 1, m_highest_active_index = 0\<rparr>"
  have h: "ObjectPool_ctor (free_store_of 8) () 1 = Inr ?pa" "ObjectPool_run [Activate] ?pa = Inr ?pb"
    by (simp_all add: pool_eval)
  have k: "IndexedObjectPool_ctor (free_store_of 8) () 1 = Inr ?qa" "IndexedObjectPool_run [Activate] ?qa = Inr ?qb"
    by (simp_all add: indexed_pool_eval)
  note a0 = active_in_range [of "free_store_of 8" "()" 1 ?pa "[Activate]" ?pb 0
    "free_store_of 8" "()" 1 ?qa "[Activate]" ?qb 0]
  note a7 = active_in_range [of "free_store_of 8" "()" 1 ?pa "[Activate]" ?pb 7
    "free_store_of 8" "()" 1 ?qa "[Activate]" ?qb 7]
  from a0 h have b0: "ObjectPool_active ?pb 0 = Inr True"
    by (simp add: ObjectPool_capacity_def)
  from a7 h have b7: "ObjectPool_active ?pb 7 = Inl OutOfBounds"
    by (simp add: ObjectPool_capacity_def)
  from a0 k have c0: "IndexedObjectPool_active ?qb 0 = Inr True"
    by (simp add: IndexedObjectPool_capacity_def)
  from a7 k have c7: "IndexedObjectPool_active ?qb 7 = Inl OutOfBounds"
    by (simp add: IndexedObjectPool_capacity_def)
  from h k b0 b7 c0 c7 show ?thesis
    by (intro conjI)
qed

text \<open>
  C4. Moving a pool of capacity 1, the object at address 0, into a new pool constructed at
  address 1: \<open>operator=\<close> takes over \<open>first_available_\<close> and \<open>pool_\<close>, which it sets to
  null in the source, and copies \<open>active_count_\<close> and \<open>capacity_\<close>, which it leaves as they
  are in the source. After the move \<open>capacity()\<close> of the source is 1, not 0.
\<close>

theorem move_source_capacity_counterexample:
  "ObjectPool_ctor (free_store_of 8) () 1 =
     Inr \<lparr>m_first_available = UnitPtr 0,
       m_pool = Some [\<lparr>m_active = False, m_next = nullptr, m_object = ()\<rparr>],
       m_active_count = 0, m_capacity = 1\<rparr> \<and>
   snd (ObjectPool_move_ctor 0 1 0
     (two_objects
        \<lparr>m_first_available = UnitPtr 0,
          m_pool = Some [\<lparr>m_active = False, m_next = nullptr, m_object = ()\<rparr>],
          m_active_count = 0, m_capacity = 1\<rparr>
        \<lparr>m_first_available = nullptr, m_pool = None, m_active_count = 0, m_capacity = 0\<rparr>)) 1 =
     \<lparr>m_first_available = UnitPtr 0,
       m_pool = Some [\<lparr>m_active = False, m_next = nullptr, m_object = ()\<rparr>],
       m_active_count = 0, m_capacity = 1\<rparr> \<and>
   snd (ObjectPool_move_ctor 0 1 0
     (two_objects
        \<lparr>m_first_available = UnitPtr 0,
          m_pool = Some [\<lparr>m_active = False, m_next = nullptr, m_object = ()\<rparr>],
          m_active_count = 0, m_capacity = 1\<rparr>
        \<lparr>m_first_available = nullptr, m_pool = None, m_active_count = 0, m_capacity = 0\<rparr>)) 0 =
     \<lparr>m_first_available = nullptr, m_pool = None, m_active_count = 0, m_capacity = 1\<rparr> \<and>
   ObjectPool_capacity (snd (ObjectPool_move_ctor 0 1 0
     (two_objects
        \<lparr>m_first_available = UnitPtr 0,
          m_pool = Some [\<lparr>m_active = False, m_next = nullptr, m_object = ()\<rparr>],
          m_active_count = 0, m_capacity = 1\<rparr>
        \<lparr>m_first_available = nullptr, m_pool = None, m_active_count = 0, m_capacity = 0\<rparr>)) 0) = 1 \<and>
   IndexedObjectPool_ctor (free_store_of 8) () 1 =
     Inr \<lparr>m_first_available = UnitPtr 0,
       m_pool = Some [\<lparr>m_active = False, m_next = nullptr, m_object = (), m_index = 0\<rparr>],
       m_active_count = 0, m_capacity = 1, m_highest_active_index = 0\<rparr> \<and>
   snd (IndexedObjectPool_move_ctor 0 1 0
     (two_objects
        \<lparr>m_first_available = UnitPtr 0,
          m_pool = Some [\<lparr>m_active = False, m_next = nullptr, m_object = (), m_index = 0\<rparr>],
          m_active_count = 0, m_capacity = 1, m_highest_active_index = 0\<rparr>
        \<lparr>m_first_available = nullptr, m_pool = None, m_active_count = 0, m_capacity = 0,
          m_highest_active_index = 0\<rparr>)) 1 =
     \<lparr>m_first_available = UnitPtr 0,
       m_pool = Some [\<lparr>m_active = False, m_next = nullptr, m_object = (), m_index = 0\<rparr>],
       m_active_count = 0, m_capacity = 1, m_highest_active_index = 0\<rparr> \<and>
   snd (IndexedObjectPool_move_ctor 0 1 0
     (two_objects
        \<lparr>m_first_available = UnitPtr 0,
          m_pool = Some [\<lparr>m_active = False, m_next = nullptr, m_object = (), m_index = 0\<rparr>],
          m_active_count = 0, m_capacity = 1, m_highest_active_index = 0\<rparr>
        \<lparr>m_first_available = nullptr, m_pool = None, m_active_count = 0, m_capacity = 0,
          m_highest_active_index = 0\<rparr>)) 0 =
     \<lparr>m_first_available = nullptr, m_pool = None, m_active_count = 0, m_capacity = 1,
       m_highest_active_index = 0\<rparr> \<and>
   IndexedObjectPool_capacity (snd (IndexedObjectPool_move_ctor 0 1 0
     (two_objects
        \<lparr>m_first_available = UnitPtr 0,
          m_pool = Some [\<lparr>m_active = False, m_next = nullptr, m_object = (), m_index = 0\<rparr>],
          m_active_count = 0, m_capacity = 1, m_highest_active_index = 0\<rparr>
        \<lparr>m_first_available = nullptr, m_pool = None, m_active_count = 0, m_capacity = 0,
          m_highest_active_index = 0\<rparr>)) 0) = 1"
  by (simp add: pool_eval indexed_pool_eval ObjectPool_move_ctor_def ObjectPool_move_assign_def
      IndexedObjectPool_move_ctor_def IndexedObjectPool_move_assign_def ObjectPool_capacity_def
      IndexedObjectPool_capacity_def two_objects_def Let_def)

text \<open>
  C4, amended. After moving pool \<open>A\<close> into a different pool \<open>B\<close>, by the move assignment or
  the move constructor, in both variants: \<open>B\<close> is the pool \<open>A\<close> was (active count, capacity,
  highest active index, free-list head and units) and owns its array, the array \<open>B\<close> owned
  before a move assignment is released, and every other object is as before; \<open>A\<close> has a
  null \<open>pool_\<close> and a null \<open>first_available_\<close>, so destroying it releases nothing, and
  \<open>A.capacity()\<close> and \<open>A.activeCount()\<close> still return the values from before the move. A
  move assignment of a pool to itself changes nothing.
\<close>

theorem move_semantics:
  "(B \<noteq> A \<longrightarrow>
      ObjectPool_move_assign B A s =
        (m_pool (s B),
         s(B := s A, A := (s A)\<lparr>m_first_available := nullptr, m_pool := None\<rparr>)) \<and>
      ObjectPool_move_ctor c B A s =
        (None, s(B := s A, A := (s A)\<lparr>m_first_available := nullptr, m_pool := None\<rparr>)) \<and>
      ObjectPool_dtor (snd (ObjectPool_move_assign B A s) B) = ObjectPool_dtor (s A) \<and>
      ObjectPool_dtor (snd (ObjectPool_move_assign B A s) A) = None \<and>
      ObjectPool_capacity (snd (ObjectPool_move_assign B A s) A) = ObjectPool_capacity (s A) \<and>
      ObjectPool_activeCount (snd (ObjectPool_move_assign B A s) A) =
        ObjectPool_activeCount (s A)) \<and>
   ObjectPool_move_assign A A s = (None, s) \<and>
   (B' \<noteq> A' \<longrightarrow>
      IndexedObjectPool_move_assign B' A' s' =
        (m_pool (s' B'),
         s'(B' := s' A', A' := (s' A')\<lparr>m_first_available := nullptr, m_pool := None\<rparr>)) \<and>
      IndexedObjectPool_move_ctor c B' A' s' =
        (None, s'(B' := s' A', A' := (s' A')\<lparr>m_first_available := nullptr, m_pool := None\<rparr>)) \<and>
      IndexedObjectPool_dtor (snd (IndexedObjectPool_move_assign B' A' s') B') =
        IndexedObjectPool_dtor (s' A') \<and>
      IndexedObjectPool_dtor (snd (IndexedObjectPool_move_assign B' A' s') A') = None \<and>
      IndexedObjectPool_capacity (snd (IndexedObjectPool_move_assign B' A' s') A') =
        IndexedObjectPool_capacity (s' A') \<and>
      IndexedObjectPool_activeCount (snd (IndexedObjectPool_move_assign B' A' s') A') =
        IndexedObjectPool_activeCount (s' A')) \<and>
   IndexedObjectPool_move_assign A' A' s' = (None, s')"
  by (auto simp: ObjectPool_move_assign_def ObjectPool_move_ctor_def ObjectPool_dtor_def
      ObjectPool_capacity_def ObjectPool_activeCount_def IndexedObjectPool_move_assign_def
      IndexedObjectPool_move_ctor_def IndexedObjectPool_dtor_def IndexedObjectPool_capacity_def
      IndexedObjectPool_activeCount_def Let_def fun_eq_iff)

theorem move_semantics_witness:
  "(1::nat) \<noteq> 0 \<and>
   fst (ObjectPool_move_assign 1 0
     (two_objects
        \<lparr>m_first_available = UnitPtr 1,
          m_pool = Some [\<lparr>m_active = True, m_next = UnitPtr 1, m_object = ()\<rparr>,
                         \<lparr>m_active = False, m_next = nullptr, m_object = ()\<rparr>],
          m_active_count = 1, m_capacity = 2\<rparr>
        \<lparr>m_first_available = UnitPtr 0,
          m_pool = Some [\<lparr>m_active = False, m_next = nullptr, m_object = ()\<rparr>],
          m_active_count = 0, m_capacity = 1\<rparr>)) =
     Some [\<lparr>m_active = False, m_next = nullptr, m_object = ()\<rparr>] \<and>
   snd (ObjectPool_move_assign 1 0
     (two_objects
        \<lparr>m_first_available = UnitPtr 1,
          m_pool = Some [\<lparr>m_active = True, m_next = UnitPtr 1, m_object = ()\<rparr>,
                         \<lparr>m_active = False, m_next = nullptr, m_object = ()\<rparr>],
          m_active_count = 1, m_capacity = 2\<rparr>
        \<lparr>m_first_available = UnitPtr 0,
          m_pool = Some [\<lparr>m_active = False, m_next = nullptr, m_object = ()\<rparr>],
          m_active_count = 0, m_capacity = 1\<rparr>)) 1 =
     \<lparr>m_first_available = UnitPtr 1,
          m_pool = Some [\<lparr>m_active = True, m_next = UnitPtr 1, m_object = ()\<rparr>,
                         \<lparr>m_active = False, m_next = nullptr, m_object = ()\<rparr>],
          m_active_count = 1, m_capacity = 2\<rparr> \<and>
   snd (ObjectPool_move_assign 1 0
     (two_objects
        \<lparr>m_first_available = UnitPtr 1,
          m_pool = Some [\<lparr>m_active = True, m_next = UnitPtr 1, m_object = ()\<rparr>,
                         \<lparr>m_active = False, m_next = nullptr, m_object = ()\<rparr>],
          m_active_count = 1, m_capacity = 2\<rparr>
        \<lparr>m_first_available = UnitPtr 0,
          m_pool = Some [\<lparr>m_active = False, m_next = nullptr, m_object = ()\<rparr>],
          m_active_count = 0, m_capacity = 1\<rparr>)) 0 =
     \<lparr>m_first_available = nullptr, m_pool = None, m_active_count = 1, m_capacity = 2\<rparr> \<and>
   ObjectPool_dtor (snd (ObjectPool_move_assign 1 0
     (two_objects
        \<lparr>m_first_available = UnitPtr 1,
          m_pool = Some [\<lparr>m_active = True, m_next = UnitPtr 1, m_object = ()\<rparr>,
                         \<lparr>m_active = False, m_next = nullptr, m_object = ()\<rparr>],
          m_active_count = 1, m_capacity = 2\<rparr>
        \<lparr>m_first_available = UnitPtr 0,
          m_pool = Some [\<lparr>m_active = False, m_next = nullptr, m_object = ()\<rparr>],
          m_active_count = 0, m_capacity = 1\<rparr>)) 0) = None \<and>
   ObjectPool_capacity (snd (ObjectPool_move_assign 1 0
     (two_objects
        \<lparr>m_first_available = UnitPtr 1,
          m_pool = Some [\<lparr>m_active = True, m_next = UnitPtr 1, m_object = ()\<rparr>,
                         \<lparr>m_active = False, m_next = nullptr, m_object = ()\<rparr>],
          m_active_count = 1, m_capacity = 2\<rparr>
        \<lparr>m_first_available = UnitPtr 0,
          m_pool = Some [\<lparr>m_active = False, m_next = nullptr, m_object = ()\<rparr>],
          m_active_count = 0, m_capacity = 1\<rparr>)) 0) = 2 \<and>
   ObjectPool_activeCount (snd (ObjectPool_move_assign 1 0
     (two_objects
        \<lparr>m_first_available = UnitPtr 1,
          m_pool = Some [\<lparr>m_active = True, m_next = UnitPtr 1, m_object = ()\<rparr>,
                         \<lparr>m_active = False, m_next = nullptr, m_object = ()\<rparr>],
          m_active_count = 1, m_capacity = 2\<rparr>
        \<lparr>m_first_available = UnitPtr 0,
          m_pool = Some [\<lparr>m_active = False, m_next = nullptr, m_object = ()\<rparr>],
          m_active_count = 0, m_capacity = 1\<rparr>)) 0) = 1 \<and>
   ObjectPool_move_assign 0 0
     (two_objects
        \<lparr>m_first_available = UnitPtr 1,
          m_pool = Some [\<lparr>m_active = True, m_next = UnitPtr 1, m_object = ()\<rparr>,
                         \<lparr>m_active = False, m_next = nullptr, m_object = ()\<rparr>],
          m_active_count = 1, m_capacity = 2\<rparr>
        \<lparr>m_first_available = UnitPtr 0,
          m_pool = Some [\<lparr>m_active = False, m_next = nullptr, m_object = ()\<rparr>],
          m_active_count = 0, m_capacity = 1\<rparr>) =
     (None, (two_objects
        \<lparr>m_first_available = UnitPtr 1,
          m_pool = Some [\<lparr>m_active = True, m_next = UnitPtr 1, m_object = ()\<rparr>,
                         \<lparr>m_active = False, m_next = nullptr, m_object = ()\<rparr>],
          m_active_count = 1, m_capacity = 2\<rparr>
        \<lparr>m_first_available = UnitPtr 0,
          m_pool = Some [\<lparr>m_active = False, m_next = nullptr, m_object = ()\<rparr>],
          m_active_count = 0, m_capacity = 1\<rparr>)) \<and>
   fst (IndexedObjectPool_move_assign 1 0
     (two_objects
        \<lparr>m_first_available = UnitPtr 1,
          m_pool = Some [\<lparr>m_active = True, m_next = UnitPtr 1, m_object = (), m_index = 0\<rparr>,
                         \<lparr>m_active = False, m_next = nullptr, m_object = (), m_index = 1\<rparr>],
          m_active_count = 1, m_capacity = 2, m_highest_active_index = 0\<rparr>
        \<lparr>m_first_available = UnitPtr 0,
          m_pool = Some [\<lparr>m_active = False, m_next = nullptr, m_object = (), m_index = 0\<rparr>],
          m_active_count = 0, m_capacity = 1, m_highest_active_index = 0\<rparr>)) =
     Some [\<lparr>m_active = False, m_next = nullptr, m_object = (), m_index = 0\<rparr>] \<and>
   snd (IndexedObjectPool_move_assign 1 0
     (two_objects
        \<lparr>m_first_available = UnitPtr 1,
          m_pool = Some [\<lparr>m_active = True, m_next = UnitPtr 1, m_object = (), m_index = 0\<rparr>,
                         \<lparr>m_active = False, m_next = nullptr, m_object = (), m_index = 1\<rparr>],
          m_active_count = 1, m_capacity = 2, m_highest_active_index = 0\<rparr>
        \<lparr>m_first_available = UnitPtr 0,
          m_pool = Some [\<lparr>m_active = False, m_next = nullptr, m_object = (), m_index = 0\<rparr>],
          m_active_count = 0, m_capacity = 1, m_highest_active_index = 0\<rparr>)) 1 =
     \<lparr>m_first_available = UnitPtr 1,
          m_pool = Some [\<lparr>m_active = True, m_next = UnitPtr 1, m_object = (), m_index = 0\<rparr>,
                         \<lparr>m_active = False, m_next = nullptr, m_object = (), m_index = 1\<rparr>],
          m_active_count = 1, m_capacity = 2, m_highest_active_index = 0\<rparr> \<and>
   snd (IndexedObjectPool_move_assign 1 0
     (two_objects
        \<lparr>m_first_available = UnitPtr 1,
          m_pool = Some [\<lparr>m_active = True, m_next = UnitPtr 1, m_object = (), m_index = 0\<rparr>,
                         \<lparr>m_active = False, m_next = nullptr, m_object = (), m_index = 1\<rparr>],
          m_active_count = 1, m_capacity = 2, m_highest_active_index = 0\<rparr>
        \<lparr>m_first_available = UnitPtr 0,
          m_pool = Some [\<lparr>m_active = False, m_next = nullptr, m_object = (), m_index = 0\<rparr>],
          m_active_count = 0, m_capacity = 1, m_highest_active_index = 0\<rparr>)) 0 =
     \<lparr>m_first_available = nullptr, m_pool = None, m_active_count = 1, m_capacity = 2,
          m_highest_active_index = 0\<rparr> \<and>
   IndexedObjectPool_dtor (snd (IndexedObjectPool_move_assign 1 0
     (two_objects
        \<lparr>m_first_available = UnitPtr 1,
          m_pool = Some [\<lparr>m_active = True, m_next = UnitPtr 1, m_object = (), m_index = 0\<rparr>,
                         \<lparr>m_active = False, m_next = nullptr, m_object = (), m_index = 1\<rparr>],
          m_active_count = 1, m_capacity = 2, m_highest_active_index = 0\<rparr>
        \<lparr>m_first_available = UnitPtr 0,
          m_pool = Some [\<lparr>m_active = False, m_next = nullptr, m_object = (), m_index = 0\<rparr>],
          m_active_count = 0, m_capacity = 1, m_highest_active_index = 0\<rparr>)) 0) = None \<and>
   IndexedObjectPool_capacity (snd (IndexedObjectPool_move_assign 1 0
     (two_objects
        \<lparr>m_first_available = UnitPtr 1,
          m_pool = Some [\<lparr>m_active = True, m_next = UnitPtr 1, m_object = (), m_index = 0\<rparr>,
                         \<lparr>m_active = False, m_next = nullptr, m_object = (), m_index = 1\<rparr>],
          m_active_count = 1, m_capacity = 2, m_highest_active_index = 0\<rparr>
        \<lparr>m_first_available = UnitPtr 0,
          m_pool = Some [\<lparr>m_active = False, m_next = nullptr, m_object = (), m_index = 0\<rparr>],
          m_active_count = 0, m_capacity = 1, m_highest_active_index = 0\<rparr>)) 0) = 2 \<and>
   IndexedObjectPool_activeCount (snd (IndexedObjectPool_move_assign 1 0
     (two_objects
        \<lparr>m_first_available = UnitPtr 1,
          m_pool = Some [\<lparr>m_active = True, m_next = UnitPtr 1, m_object = (), m_index = 0\<rparr>,
                         \<lparr>m_active = False, m_next = nullptr, m_object = (), m_index = 1\<rparr>],
          m_active_count = 1, m_capacity = 2, m_highest_active_index = 0\<rparr>
        \<lparr>m_first_available = UnitPtr 0,
          m_pool = Some [\<lparr>m_active = False, m_next = nullptr, m_object = (), m_index = 0\<rparr>],
          m_active_count = 0, m_capacity = 1, m_highest_active_index = 0\<rparr>)) 0) = 1 \<and>
   IndexedObjectPool_move_assign 0 0
     (two_objects
        \<lparr>m_first_available = UnitPtr 1,
          m_pool = Some [\<lparr>m_active = True, m_next = UnitPtr 1, m_object = (), m_index = 0\<rparr>,
                         \<lparr>m_active = False, m_next = nullptr, m_object = (), m_index = 1\<rparr>],
          m_active_count = 1, m_capacity = 2, m_highest_active_index = 0\<rparr>
        \<lparr>m_first_available = UnitPtr 0,
          m_pool = Some [\<lparr>m_active = False, m_next = nullptr, m_object = (), m_index = 0\<rparr>],
          m_active_count = 0, m_capacity = 1, m_highest_active_index = 0\<rparr>) =
     (None, (two_objects
        \<lparr>m_first_available = UnitPtr 1,
          m_pool = Some [\<lparr>m_active = True, m_next = UnitPtr 1, m_object = (), m_index = 0\<rparr>,
                         \<lparr>m_active = False, m_next = nullptr, m_object = (), m_index = 1\<rparr>],
          m_active_count = 1, m_capacity = 2, m_highest_active_index = 0\<rparr>
        \<lparr>m_first_available = UnitPtr 0,
          m_pool = Some [\<lparr>m_active = False, m_next = nullptr, m_object = (), m_index = 0\<rparr>],
          m_active_count = 0, m_capacity = 1, m_highest_active_index = 0\<rparr>))"
proof -
  let ?s = "two_objects
        \<lparr>m_first_available = UnitPtr 1,
          m_pool = Some [\<lparr>m_active = True, m_next = UnitPtr 1, m_object = ()\<rparr>,
                         \<lparr>m_active = False, m_next = nullptr, m_object = ()\<rparr>],
          m_active_count = 1, m_capacity = 2\<rparr>
        \<lparr>m_first_available = UnitPtr 0,
          m_pool = Some [\<lparr>m_active = False, m_next = nullptr, m_object = ()\<rparr>],
          m_active_count = 0, m_capacity = 1\<rparr>"
  let ?t = "two_objects
        \<lparr>m_first_available = UnitPtr 1,
          m_pool = Some [\<lparr>m_active = True, m_next = UnitPtr 1, m_object = (), m_index = 0\<rparr>,
                         \<lparr>m_active = False, m_next = nullptr, m_object = (), m_index = 1\<rparr>],
          m_active_count = 1, m_capacity = 2, m_highest_active_index = 0\<rparr>
        \<lparr>m_first_available = UnitPtr 0,
          m_pool = Some [\<lparr>m_active = False, m_next = nullptr, m_object = (), m_index = 0\<rparr>],
          m_active_count = 0, m_capacity = 1, m_highest_active_index = 0\<rparr>"
  note t = move_semantics [where B = 1 and A = 0 and s = ?s and B' = 1 and A' = 0 and s' = ?t]
  have h: "(1::nat) \<noteq> 0"
    by simp
  note a = t [THEN conjunct1, THEN mp, OF h]
  note b = t [THEN conjunct2, THEN conjunct1]
  note c = t [THEN conjunct2, THEN conjunct2, THEN conjunct1, THEN mp, OF h]
  note d = t [THEN conjunct2, THEN conjunct2, THEN conjunct2]
  from a b c d show ?thesis
    by (simp add: two_objects_def ObjectPool_dtor_def ObjectPool_capacity_def
        ObjectPool_activeCount_def IndexedObjectPool_dtor_def IndexedObjectPool_capacity_def
        IndexedObjectPool_activeCount_def)
qed



text \<open>
  C5. The invariant of \<open>highest_active_index_\<close> is claimed for the state after every sequence
  of calls in which \<open>deactivate\<close> is given indices of active units. On the indexed pool of
  capacity 2 the sequence \<open>activate\<close>, \<open>activate\<close>, \<open>deactivate(0)\<close> is such a sequence: unit 0
  is active when it is deactivated, and the highest active index is 1. The call compares the
  null \<open>first_available_\<close> with the stale \<open>pool_[0].next_\<close>, which points to unit 1, and
  reads \<open>first_available_->next_\<close> through the null pointer: the sequence reaches no state
  in which unit 1 is the highest active unit.
\<close>

theorem highest_active_index_null_dereference:
  "IndexedObjectPool_ctor (free_store_of 8) () 2 =
     Inr \<lparr>m_first_available = UnitPtr 0,
       m_pool = Some [\<lparr>m_active = False, m_next = UnitPtr 1, m_object = (), m_index = 0\<rparr>,
                      \<lparr>m_active = False, m_next = nullptr, m_object = (), m_index = 1\<rparr>],
       m_active_count = 0, m_capacity = 2, m_highest_active_index = 0\<rparr> \<and>
   IndexedObjectPool_legal [Activate, Activate, Deactivate 0]
     \<lparr>m_first_available = UnitPtr 0,
       m_pool = Some [\<lparr>m_active = False, m_next = UnitPtr 1, m_object = (), m_index = 0\<rparr>,
                      \<lparr>m_active = False, m_next = nullptr, m_object = (), m_index = 1\<rparr>],
       m_active_count = 0, m_capacity = 2, m_highest_active_index = 0\<rparr> \<and>
   IndexedObjectPool_run [Activate, Activate]
     \<lparr>m_first_available = UnitPtr 0,
       m_pool = Some [\<lparr>m_active = False, m_next = UnitPtr 1, m_object = (), m_index = 0\<rparr>,
                      \<lparr>m_active = False, m_next = nullptr, m_object = (), m_index = 1\<rparr>],
       m_active_count = 0, m_capacity = 2, m_highest_active_index = 0\<rparr> =
     Inr \<lparr>m_first_available = nullptr,
       m_pool = Some [\<lparr>m_active = True, m_next = UnitPtr 1, m_object = (), m_index = 0\<rparr>,
                      \<lparr>m_active = True, m_next = nullptr, m_object = (), m_index = 1\<rparr>],
       m_active_count = 2, m_capacity = 2, m_highest_active_index = 1\<rparr> \<and>
   IndexedObjectPool_active
     \<lparr>m_first_available = nullptr,
       m_pool = Some [\<lparr>m_active = True, m_next = UnitPtr 1, m_object = (), m_index = 0\<rparr>,
                      \<lparr>m_active = True, m_next = nullptr, m_object = (), m_index = 1\<rparr>],
       m_active_count = 2, m_capacity = 2, m_highest_active_index = 1\<rparr> 0 = Inr True \<and>
   IndexedObjectPool_deactivate 0
     \<lparr>m_first_available = nullptr,
       m_pool = Some [\<lparr>m_active = True, m_next = UnitPtr 1, m_object = (), m_index = 0\<rparr>,
                      \<lparr>m_active = True, m_next = nullptr, m_object = (), m_index = 1\<rparr>],
       m_active_count = 2, m_capacity = 2, m_highest_active_index = 1\<rparr> = Inl NullDereference \<and>
   IndexedObjectPool_run [Activate, Activate, Deactivate 0]
     \<lparr>m_first_available = UnitPtr 0,
       m_pool = Some [\<lparr>m_active = False, m_next = UnitPtr 1, m_object = (), m_index = 0\<rparr>,
                      \<lparr>m_active = False, m_next = nullptr, m_object = (), m_index = 1\<rparr>],
       m_active_count = 0, m_capacity = 2, m_highest_active_index = 0\<rparr> = Inl NullDereference"
  by (simp add: indexed_pool_eval)

text \<open>
  C10. \<open>deactivate(index)\<close> is claimed to mark the unit inactive, link it into the free list
  and decrement \<open>active_count_\<close> for every index in range. On the indexed pool of capacity
  3 with all three units handed out, \<open>deactivate(1)\<close> has an index in range; it marks unit 1
  inactive, compares the null \<open>first_available_\<close> with the stale \<open>pool_[1].next_\<close>, which
  points to unit 2, and reads \<open>first_available_->next_\<close> through the null pointer, before
  it has linked the unit or decremented \<open>active_count_\<close>.
\<close>

theorem deactivate_null_dereference:
  "IndexedObjectPool_ctor (free_store_of 8) () 3 =
     Inr \<lparr>m_first_available = UnitPtr 0,
       m_pool = Some [\<lparr>m_active = False, m_next = UnitPtr 1, m_object = (), m_index = 0\<rparr>,
                      \<lparr>m_active = False, m_next = UnitPtr 2, m_object = (), m_index = 1\<rparr>,
                      \<lparr>m_active = False, m_next = nullptr, m_object = (), m_index = 2\<rparr>],
       m_active_count = 0, m_capacity = 3, m_highest_active_index = 0\<rparr> \<and>
   IndexedObjectPool_run [Activate, Activate, Activate]
     \<lparr>m_first_available = UnitPtr 0,
       m_pool = Some [\<lparr>m_active = False, m_next = UnitPtr 1, m_object = (), m_index = 0\<rparr>,
                      \<lparr>m_active = False, m_next = UnitPtr 2, m_object = (), m_index = 1\<rparr>,
                      \<lparr>m_active = False, m_next = nullptr, m_object = (), m_index = 2\<rparr>],
       m_active_count = 0, m_capacity = 3, m_highest_active_index = 0\<rparr> =
     Inr \<lparr>m_first_available = nullptr,
       m_pool = Some [\<lparr>m_active = True, m_next = UnitPtr 1, m_object = (), m_index = 0\<rparr>,
                      \<lparr>m_active = True, m_next = UnitPtr 2, m_object = (), m_index = 1\<rparr>,
                      \<lparr>m_active = True, m_next = nullptr, m_object = (), m_index = 2\<rparr>],
       m_active_count = 3, m_capacity = 3, m_highest_active_index = 2\<rparr> \<and>
   (1::size_t) < IndexedObjectPool_capacity
     \<lparr>m_first_available = nullptr,
       m_pool = Some [\<lparr>m_active = True, m_next = UnitPtr 1, m_object = (), m_index = 0\<rparr>,
                      \<lparr>m_active = True, m_next = UnitPtr 2, m_object = (), m_index = 1\<rparr>,
                      \<lparr>m_active = True, m_next = nullptr, m_object = (), m_index = 2\<rparr>],
       m_active_count = 3, m_capacity = 3, m_highest_active_index = 2\<rparr> \<and>
   IndexedObjectPool_deactivate 1
     \<lparr>m_first_available = nullptr,
       m_pool = Some [\<lparr>m_active = True, m_next = UnitPtr 1, m_object = (), m_index = 0\<rparr>,
                      \<lparr>m_active = True, m_next = UnitPtr 2, m_object = (), m_index = 1\<rparr>,
                      \<lparr>m_active = True, m_next = nullptr, m_object = (), m_index = 2\<rparr>],
       m_active_count = 3, m_capacity = 3, m_highest_active_index = 2\<rparr> = Inl NullDereference"
  by (simp add: indexed_pool_eval IndexedObjectPool_capacity_def)

end
